theory Spec2Isabelle
  imports Main "HOL-Library.Sublist"
begin

section \<open>Errors\<close>

text \<open>
  Every exception of \<^verbatim>\<open>http_server.py\<close> is a value. \<open>OtherException\<close> stands for any
  exception class deriving from \<^verbatim>\<open>Exception\<close> that a handler may raise, \<open>SystemExiting\<close> for
  the classes deriving from \<^verbatim>\<open>BaseException\<close> only (\<^verbatim>\<open>SystemExit\<close>, \<^verbatim>\<open>KeyboardInterrupt\<close>,
  \<^verbatim>\<open>GeneratorExit\<close>), which \<^verbatim>\<open>except Exception\<close> does not catch. \<open>NotModelled\<close> is no Python
  exception: it marks an input on which a library function (\<^verbatim>\<open>re.compile\<close>, \<^verbatim>\<open>json.dumps\<close>) is
  not modelled here, so that nothing is stated about it.
\<close>

datatype error =
    ValueError | TypeError | IndexError | KeyError | AttributeError
  | ZeroDivisionError | AssertionError | StopIteration
  | OtherException string | SystemExiting string | NotModelled

fun is_Exception :: "error \<Rightarrow> bool" where
  "is_Exception (SystemExiting _) = False"
| "is_Exception _ = True"

section \<open>RollingCounter\<close>

record RollingCounter =
  rc_interval_ms :: int
  rc_current_index :: int
  rc_bins :: int
  rc_counts :: "int list"
  rc_count :: int

text \<open>\<^verbatim>\<open>RollingCounter.__init__(interval_ms, bins=4)\<close>; \<^verbatim>\<open>//\<close> by zero raises.\<close>

definition RollingCounter_init :: "int \<Rightarrow> int \<Rightarrow> error + RollingCounter" where
  "RollingCounter_init interval_ms bins =
     (if bins = 0 then Inl ZeroDivisionError
      else Inr \<lparr>rc_interval_ms = interval_ms div bins, rc_current_index = 0,
                rc_bins = bins, rc_counts = [], rc_count = 0\<rparr>)"

text \<open>
  \<^verbatim>\<open>while len(self._counts) > self._bins: self._counts.pop(0)\<close>; \<^verbatim>\<open>pop(0)\<close> of an empty
  list raises IndexError.
\<close>

fun pop_oldest :: "int list \<Rightarrow> int \<Rightarrow> error + int list" where
  "pop_oldest [] b = (if 0 > b then Inl IndexError else Inr [])"
| "pop_oldest (c # cs) b =
     (if int (length (c # cs)) > b then pop_oldest cs b else Inr (c # cs))"

text \<open>\<^verbatim>\<open>self._counts[-1] += 1\<close>; raises IndexError on the empty list.\<close>

fun bump_last :: "int list \<Rightarrow> error + int list" where
  "bump_last [] = Inl IndexError"
| "bump_last [c] = Inr [c + 1]"
| "bump_last (c # cs) = map_sum id ((#) c) (bump_last cs)"

text \<open>
  \<^verbatim>\<open>RollingCounter.increment\<close>. The clock reading \<^verbatim>\<open>int(time.time()*1000)\<close> is the
  parameter \<open>ms\<close>. The result is the returned count and the counter as the call leaves it.
  Only the \<^verbatim>\<open>else\<close> branch stores the new index.
\<close>

definition increment :: "int \<Rightarrow> RollingCounter \<Rightarrow> error + (int \<times> RollingCounter)" where
  "increment ms rc =
     (if rc_interval_ms rc = 0 then Inl ZeroDivisionError
      else
        let index = ms div rc_interval_ms rc;
            step =
              (if index \<noteq> rc_current_index rc then
                 (if index - rc_current_index rc > rc_bins rc then
                    Inr (rc\<lparr>rc_counts := [0]\<rparr>)
                  else
                    (case pop_oldest (rc_counts rc @ [0]) (rc_bins rc) of
                       Inl e \<Rightarrow> Inl e
                     | Inr cs \<Rightarrow> Inr (rc\<lparr>rc_counts := cs, rc_current_index := index\<rparr>)))
               else Inr rc)
        in case step of
             Inl e \<Rightarrow> Inl e
           | Inr rc1 \<Rightarrow>
               (case bump_last (rc_counts rc1) of
                  Inl e \<Rightarrow> Inl e
                | Inr cs \<Rightarrow>
                    let rc2 = rc1\<lparr>rc_counts := cs, rc_count := sum_list cs\<rparr>
                    in Inr (rc_count rc2, rc2)))"

section \<open>CacheDict\<close>

text \<open>
  The values the limiter's caches hold: rolling counters, and the integer that the keyword
  argument \<^verbatim>\<open>capacity=capacity\<close> stores (see \<open>RateLimiter_init\<close>).
\<close>

datatype cache_value = IntVal int | CounterVal RollingCounter

text \<open>
  An \<^verbatim>\<open>OrderedDict\<close>: the items in order, oldest first, each key once.
\<close>

record CacheDict =
  cache_len :: int
  cd_items :: "(string \<times> cache_value) list"

text \<open>
  \<^verbatim>\<open>while len(self) > self.cache_len: oldkey = next(iter(self)); del self[oldkey]\<close>;
  \<^verbatim>\<open>next\<close> on an empty dict raises StopIteration.
\<close>

fun evict_oldest :: "(string \<times> cache_value) list \<Rightarrow> int \<Rightarrow> error + (string \<times> cache_value) list" where
  "evict_oldest [] n = (if 0 > n then Inl StopIteration else Inr [])"
| "evict_oldest (kv # kvs) n =
     (if int (length (kv # kvs)) > n then evict_oldest kvs n else Inr (kv # kvs))"

text \<open>\<^verbatim>\<open>OrderedDict.__setitem__\<close>: an existing key keeps its place, a new one goes last.\<close>

fun od_setitem :: "(string \<times> cache_value) list \<Rightarrow> string \<Rightarrow> cache_value \<Rightarrow> (string \<times> cache_value) list" where
  "od_setitem [] k v = [(k, v)]"
| "od_setitem ((k', v') # kvs) k v =
     (if k' = k then (k, v) # kvs else (k', v') # od_setitem kvs k v)"

text \<open>\<^verbatim>\<open>OrderedDict.move_to_end(key)\<close> for a key that is present.\<close>

definition move_to_end :: "(string \<times> cache_value) list \<Rightarrow> string \<Rightarrow> (string \<times> cache_value) list" where
  "move_to_end kvs k = filter (\<lambda>kv. fst kv \<noteq> k) kvs @ filter (\<lambda>kv. fst kv = k) kvs"

definition cd_contains :: "CacheDict \<Rightarrow> string \<Rightarrow> bool" where
  "cd_contains d k = (k \<in> fst ` set (cd_items d))"

text \<open>\<^verbatim>\<open>CacheDict.__setitem__\<close>\<close>

definition cd_setitem :: "CacheDict \<Rightarrow> string \<Rightarrow> cache_value \<Rightarrow> error + CacheDict" where
  "cd_setitem d k v =
     (case evict_oldest (move_to_end (od_setitem (cd_items d) k v) k) (cache_len d) of
        Inl e \<Rightarrow> Inl e
      | Inr kvs \<Rightarrow> Inr (d\<lparr>cd_items := kvs\<rparr>))"

text \<open>\<^verbatim>\<open>CacheDict.__getitem__\<close>: KeyError for a missing key, else the value, moved to the end.\<close>

definition cd_getitem :: "CacheDict \<Rightarrow> string \<Rightarrow> error + (cache_value \<times> CacheDict)" where
  "cd_getitem d k =
     (case map_of (cd_items d) k of
        None \<Rightarrow> Inl KeyError
      | Some v \<Rightarrow> Inr (v, d\<lparr>cd_items := move_to_end (cd_items d) k\<rparr>))"

text \<open>
  \<^verbatim>\<open>CacheDict.__init__(*args, cache_len=128, **kwargs)\<close>: the assertion, the field, then
  \<^verbatim>\<open>OrderedDict.__init__\<close>, which stores every keyword argument as an item of the dict.
\<close>

fun cd_update :: "CacheDict \<Rightarrow> (string \<times> cache_value) list \<Rightarrow> error + CacheDict" where
  "cd_update d [] = Inr d"
| "cd_update d ((k, v) # kwargs) =
     (case cd_setitem d k v of Inl e \<Rightarrow> Inl e | Inr d' \<Rightarrow> cd_update d' kwargs)"

definition CacheDict_init :: "int \<Rightarrow> (string \<times> cache_value) list \<Rightarrow> error + CacheDict" where
  "CacheDict_init cache_len_arg kwargs =
     (if \<not> cache_len_arg > 0 then Inl AssertionError
      else cd_update \<lparr>cache_len = cache_len_arg, cd_items = []\<rparr> kwargs)"

definition default_cache_len :: int where
  "default_cache_len = 128"

section \<open>RateLimiter\<close>

record RateLimiter =
  rl_counter :: CacheDict
  rl_blocked :: CacheDict
  rl_limit :: int
  rl_interval_ms :: int

text \<open>
  \<^verbatim>\<open>RateLimiter.__init__(limit, interval_ms, capacity)\<close>. Both caches are built by
  \<^verbatim>\<open>CacheDict(capacity=capacity)\<close>: \<^verbatim>\<open>cache_len\<close> is not passed and keeps its default, and
  \<^verbatim>\<open>capacity\<close> is a keyword argument of the dict.
\<close>

definition RateLimiter_init :: "int \<Rightarrow> int \<Rightarrow> int \<Rightarrow> error + RateLimiter" where
  "RateLimiter_init limit interval_ms capacity =
     (case CacheDict_init default_cache_len [(''capacity'', IntVal capacity)] of
        Inl e \<Rightarrow> Inl e
      | Inr c \<Rightarrow>
          (case CacheDict_init default_cache_len [(''capacity'', IntVal capacity)] of
             Inl e \<Rightarrow> Inl e
           | Inr b \<Rightarrow>
               Inr \<lparr>rl_counter = c, rl_blocked = b, rl_limit = limit,
                    rl_interval_ms = interval_ms\<rparr>))"

text \<open>The counter object stored under \<open>k\<close> is mutated in place.\<close>

definition cd_store :: "CacheDict \<Rightarrow> string \<Rightarrow> cache_value \<Rightarrow> CacheDict" where
  "cd_store d k v = d\<lparr>cd_items := map (\<lambda>kv. if fst kv = k then (k, v) else kv) (cd_items d)\<rparr>"

text \<open>
  \<^verbatim>\<open>RateLimiter.insert(k)\<close> at clock reading \<open>ms\<close>: the answer (True is "blocked") and the
  limiter as the call leaves it. A value that is no counter has no \<^verbatim>\<open>increment\<close>.
\<close>

definition insert_key :: "int \<Rightarrow> string \<Rightarrow> RateLimiter \<Rightarrow> error + (bool \<times> RateLimiter)" where
  "insert_key ms k rl =
     (case (if \<not> cd_contains (rl_counter rl) k then
              (case RollingCounter_init (rl_interval_ms rl) 4 of
                 Inl e \<Rightarrow> Inl e
               | Inr rc \<Rightarrow> cd_setitem (rl_counter rl) k (CounterVal rc))
            else Inr (rl_counter rl)) of
        Inl e \<Rightarrow> Inl e
      | Inr c1 \<Rightarrow>
          (case cd_getitem c1 k of
             Inl e \<Rightarrow> Inl e
           | Inr (IntVal _, c2) \<Rightarrow> Inl AttributeError
           | Inr (CounterVal rc, c2) \<Rightarrow>
               (case increment ms rc of
                  Inl e \<Rightarrow> Inl e
                | Inr (cnt, rc') \<Rightarrow>
                    Inr (cnt > rl_limit rl, rl\<lparr>rl_counter := cd_store c2 k (CounterVal rc')\<rparr>))))"

text \<open>Successive \<^verbatim>\<open>insert\<close> calls for one key, each at its own clock reading; the answers in order.\<close>

fun insert_all :: "int list \<Rightarrow> string \<Rightarrow> RateLimiter \<Rightarrow> error + (bool list \<times> RateLimiter)" where
  "insert_all [] k rl = Inr ([], rl)"
| "insert_all (ms # mss) k rl =
     (case insert_key ms k rl of
        Inl e \<Rightarrow> Inl e
      | Inr (b, rl') \<Rightarrow>
          (case insert_all mss k rl' of
             Inl e \<Rightarrow> Inl e
           | Inr (bs, rl'') \<Rightarrow> Inr (b # bs, rl'')))"

section \<open>Strings and paths\<close>

text \<open>\<^verbatim>\<open>str.split(sep)\<close> for a one-character separator.\<close>

fun split_on :: "char \<Rightarrow> string \<Rightarrow> string list" where
  "split_on d [] = [[]]"
| "split_on d (c # cs) =
     (if c = d then [] # split_on d cs
      else (case split_on d cs of [] \<Rightarrow> [[c]] | w # ws \<Rightarrow> (c # w) # ws))"

text \<open>\<^verbatim>\<open>sep.join(xs)\<close>\<close>

fun join_with :: "string \<Rightarrow> string list \<Rightarrow> string" where
  "join_with sep [] = []"
| "join_with sep [x] = x"
| "join_with sep (x # xs) = x @ sep @ join_with sep xs"

text \<open>\<^verbatim>\<open>s.replace("\\", "/")\<close>; the backslash is the character 0x5C.\<close>

definition replace_backslash :: "string \<Rightarrow> string" where
  "replace_backslash s = map (\<lambda>c. if c = CHR 0x5C then CHR ''/'' else c) s"

text \<open>
  The functions of Python's \<^verbatim>\<open>posixpath\<close> that \<^verbatim>\<open>path_join_safe\<close> calls, as the standard
  library defines them: \<^verbatim>\<open>os.path.join\<close> of two arguments, \<^verbatim>\<open>os.path.normpath\<close> and
  \<^verbatim>\<open>os.path.abspath\<close>. The working directory \<^verbatim>\<open>os.getcwd()\<close> is the parameter \<open>cwd\<close>.
\<close>

definition posix_isabs :: "string \<Rightarrow> bool" where
  "posix_isabs p = (case p of [] \<Rightarrow> False | c # _ \<Rightarrow> c = CHR ''/'')"

definition posix_join :: "string \<Rightarrow> string \<Rightarrow> string" where
  "posix_join a b =
     (if posix_isabs b then b
      else if a = [] \<or> last a = CHR ''/'' then a @ b
      else a @ ''/'' @ b)"

fun norm_comps :: "bool \<Rightarrow> string list \<Rightarrow> string list \<Rightarrow> string list" where
  "norm_comps initial_slashes [] new_comps = new_comps"
| "norm_comps initial_slashes (seg # comps) new_comps =
     (if seg = [] \<or> seg = ''.'' then norm_comps initial_slashes comps new_comps
      else if seg \<noteq> ''..'' \<or> (\<not> initial_slashes \<and> new_comps = [])
                \<or> (new_comps \<noteq> [] \<and> last new_comps = ''..'')
        then norm_comps initial_slashes comps (new_comps @ [seg])
      else if new_comps \<noteq> [] then norm_comps initial_slashes comps (butlast new_comps)
      else norm_comps initial_slashes comps new_comps)"

definition posix_normpath :: "string \<Rightarrow> string" where
  "posix_normpath path =
     (if path = [] then ''.''
      else
        let initial_slashes =
              (if posix_isabs path then
                 (if take 2 path = ''//'' \<and> take 3 path \<noteq> ''///'' then 2 else 1)
               else (0::nat));
            comps = norm_comps (initial_slashes \<noteq> 0) (split_on CHR ''/'' path) [];
            joined = replicate initial_slashes CHR ''/'' @ join_with ''/'' comps
        in if joined = [] then ''.'' else joined)"

definition posix_abspath :: "string \<Rightarrow> string \<Rightarrow> string" where
  "posix_abspath cwd path =
     posix_normpath (if posix_isabs path then path else posix_join cwd path)"

text \<open>\<^verbatim>\<open>path_join_safe(root_directory, filename)\<close>\<close>

definition path_join_safe :: "string \<Rightarrow> string \<Rightarrow> string \<Rightarrow> error + string" where
  "path_join_safe cwd root_directory filename =
     (let root_directory = replace_backslash root_directory;
          filename = replace_backslash filename;
          parts = set (split_on CHR ''/'' filename)
      in if ''..'' \<in> parts \<or> ''.'' \<in> parts then Inl ValueError
         else Inr (posix_abspath cwd (posix_join root_directory filename)))"

section \<open>Regular expressions\<close>

text \<open>
  The part of Python's \<^verbatim>\<open>re\<close> that the router uses. A compiled pattern is its source text
  and the expression that the text denotes. \<^verbatim>\<open>.\<close> is any character but the line feed,
  \<^verbatim>\<open>[^\/]\<close> any character but the slash; \<^verbatim>\<open>^\<close> holds where nothing has been read, and \<^verbatim>\<open>$\<close>
  holds at the end of the string and just before a line feed that ends the string. Paths are
  byte strings here; slash and line feed are single bytes in UTF-8, so matching bytes and
  matching code points agree on these expressions.
\<close>

datatype cls = AnyChar | NotSlash

fun in_cls :: "cls \<Rightarrow> char \<Rightarrow> bool" where
  "in_cls AnyChar c = (c \<noteq> CHR 0x0A)"
| "in_cls NotSlash c = (c \<noteq> CHR ''/'')"

datatype regex =
    Chr char | One cls | Star cls | Plus cls | Opt regex | Alt regex regex | Seq regex regex
  | Group nat regex | Bol | Eol

text \<open>
  A matcher state: the text read so far, the text still to read, and the groups (None for a
  group that has taken no part). \<open>run r st\<close> lists the states in which \<open>r\<close> can leave \<open>st\<close>, in
  the order in which the backtracking matcher tries them: greedy repetition takes the longest
  run first, an optional part is tried before it is skipped, the left alternative before the
  right one.
\<close>

type_synonym mstate = "string \<times> string \<times> string option list"

definition repeat :: "cls \<Rightarrow> nat \<Rightarrow> mstate \<Rightarrow> mstate list" where
  "repeat k lo st =
     (case st of (pre, rest, gs) \<Rightarrow>
        map (\<lambda>n. (pre @ take n rest, drop n rest, gs))
            (rev [lo ..< Suc (length (takeWhile (in_cls k) rest))]))"

fun run :: "regex \<Rightarrow> mstate \<Rightarrow> mstate list" where
  "run (Chr c) (pre, rest, gs) =
     (case rest of [] \<Rightarrow> [] | x # xs \<Rightarrow> if x = c then [(pre @ [x], xs, gs)] else [])"
| "run (One k) (pre, rest, gs) =
     (case rest of [] \<Rightarrow> [] | x # xs \<Rightarrow> if in_cls k x then [(pre @ [x], xs, gs)] else [])"
| "run (Star k) st = repeat k 0 st"
| "run (Plus k) st = repeat k 1 st"
| "run (Opt r) st = run r st @ [st]"
| "run (Alt a b) st = run a st @ run b st"
| "run (Seq a b) st = concat (map (run b) (run a st))"
| "run (Group i r) (pre, rest, gs) =
     map (\<lambda>(pre', rest', gs'). (pre', rest', gs'[i := Some (drop (length pre) pre')]))
         (run r (pre, rest, gs))"
| "run Bol (pre, rest, gs) = (if pre = [] then [(pre, rest, gs)] else [])"
| "run Eol (pre, rest, gs) =
     (if rest = [] \<or> rest = [CHR 0x0A] then [(pre, rest, gs)] else [])"

fun run_seq :: "regex list \<Rightarrow> mstate \<Rightarrow> mstate list" where
  "run_seq [] st = [st]"
| "run_seq (r # rs) st = concat (map (run_seq rs) (run r st))"

fun ngroups :: "regex \<Rightarrow> nat" where
  "ngroups (Opt r) = ngroups r"
| "ngroups (Alt a b) = ngroups a + ngroups b"
| "ngroups (Seq a b) = ngroups a + ngroups b"
| "ngroups (Group i r) = Suc (ngroups r)"
| "ngroups _ = 0"

record re_Pattern =
  re_source :: string
  re_prog :: "regex list"

text \<open>
  \<^verbatim>\<open>Pattern.match(string)\<close> followed by \<^verbatim>\<open>groups()\<close>: None when there is no match, else the
  groups of the first successful run.
\<close>

definition re_match :: "re_Pattern \<Rightarrow> string \<Rightarrow> string option list option" where
  "re_match p s =
     (case run_seq (re_prog p) ([], s, replicate (sum_list (map ngroups (re_prog p))) None) of
        [] \<Rightarrow> None
      | (pre, rest, gs) # _ \<Rightarrow> Some gs)"

section \<open>Router.patternToRegex\<close>

text \<open>The text \<^verbatim>\<open>\/\<close> and the four token fragments, as the source writes them.\<close>

definition re_slash :: string where
  "re_slash = [CHR 0x5C, CHR ''/'']"

definition frag_optional :: string where
  "frag_optional = ''(?:'' @ re_slash @ ''([^'' @ re_slash @ '']*)|'' @ re_slash @ '')?''"

definition frag_star :: string where
  "frag_star = ''(?:'' @ re_slash @ ''(.*)|'' @ re_slash @ '')?''"

definition frag_plus :: string where
  "frag_plus = re_slash @ ''?(.+)''"

definition frag_plain :: string where
  "frag_plain = re_slash @ ''([^'' @ re_slash @ '']+)''"

text \<open>What each fragment denotes, with \<open>g\<close> the number of its group.\<close>

definition rx_optional :: "nat \<Rightarrow> regex list" where
  "rx_optional g = [Opt (Alt (Seq (Chr CHR ''/'') (Group g (Star NotSlash))) (Chr CHR ''/''))]"

definition rx_star :: "nat \<Rightarrow> regex list" where
  "rx_star g = [Opt (Alt (Seq (Chr CHR ''/'') (Group g (Star AnyChar))) (Chr CHR ''/''))]"

definition rx_plus :: "nat \<Rightarrow> regex list" where
  "rx_plus g = [Opt (Chr CHR ''/''), Group g (Plus AnyChar)]"

definition rx_plain :: "nat \<Rightarrow> regex list" where
  "rx_plain g = [Chr CHR ''/'', Group g (Plus NotSlash)]"

text \<open>
  The source pastes a literal segment into the expression unescaped, so a character with a
  meaning of its own in \<^verbatim>\<open>re\<close> syntax keeps that meaning: \<open>re_meta\<close> are these characters.
  In a literal segment \<^verbatim>\<open>.\<close> stands for one character other than the line feed, \<^verbatim>\<open>^\<close> for the
  start and \<^verbatim>\<open>$\<close> for the end of the string, and every character outside \<open>re_meta\<close> for
  itself. The other characters of \<open>re_meta\<close> (quantifiers, brackets, braces, the bar and the
  backslash) are \<open>re_special\<close>: what a literal segment with one of them denotes is not
  modelled.
\<close>

definition re_special :: "char \<Rightarrow> bool" where
  "re_special c = (c \<in> set ''*+?{}[]|()'' \<or> c = CHR 0x5C)"

definition re_meta :: "char \<Rightarrow> bool" where
  "re_meta c = (c \<in> set ''.^$'' \<or> re_special c)"

definition lit_atom :: "char \<Rightarrow> regex" where
  "lit_atom c =
     (if c = CHR ''.'' then One AnyChar
      else if c = CHR ''^'' then Bol
      else if c = CHR ''$'' then Eol
      else Chr c)"

definition is_token :: "string \<Rightarrow> bool" where
  "is_token part = (case part of [] \<Rightarrow> False | c # _ \<Rightarrow> c = CHR '':'')"

definition part_modelled :: "string \<Rightarrow> bool" where
  "part_modelled part = (is_token part \<or> \<not> list_ex re_special part)"

text \<open>
  The loop of \<^verbatim>\<open>patternToRegex\<close> over the segments: \<open>tokens\<close>, \<open>re_str\<close> and \<open>final\<close> are the
  source's variables, and \<open>rx\<close> is the expression that \<open>re_str\<close> denotes, built alongside.
  \<^verbatim>\<open>part[1:-1]\<close> is \<open>butlast (tl part)\<close>, \<^verbatim>\<open>part[1:]\<close> is \<open>tl part\<close>.
\<close>

fun compile_parts ::
  "string list \<Rightarrow> string list \<Rightarrow> string \<Rightarrow> regex list \<Rightarrow> bool
     \<Rightarrow> error + (string list \<times> string \<times> regex list)" where
  "compile_parts [] tokens re_str rx final = Inr (tokens, re_str, rx)"
| "compile_parts (part # parts) tokens re_str rx final =
     (if is_token part then
        (let c = last part in
         if c = CHR ''?'' then
           (if final then Inl ValueError
            else compile_parts parts (tokens @ [butlast (tl part)])
                   (re_str @ frag_optional) (rx @ rx_optional (length tokens)) True)
         else if c = CHR ''*'' then
           (if final then Inl ValueError
            else compile_parts parts (tokens @ [butlast (tl part)])
                   (re_str @ frag_star) (rx @ rx_star (length tokens)) True)
         else if c = CHR ''+'' then
           (if final then Inl ValueError
            else compile_parts parts (tokens @ [butlast (tl part)])
                   (re_str @ frag_plus) (rx @ rx_plus (length tokens)) True)
         else compile_parts parts (tokens @ [tl part])
                (re_str @ frag_plain) (rx @ rx_plain (length tokens)) final)
      else compile_parts parts tokens
             (re_str @ re_slash @ part) (rx @ Chr CHR ''/'' # map lit_atom part) final)"

text \<open>
  \<^verbatim>\<open>patternToRegex(pattern)\<close>. \<^verbatim>\<open>re.compile(re_str)\<close> is modelled for the patterns whose
  literal segments hold no character of \<open>re_special\<close>; for the others the result is
  \<open>NotModelled\<close>, whether Python compiles the expression or raises \<^verbatim>\<open>re.error\<close>.
\<close>

definition patternToRegex :: "string \<Rightarrow> error + (re_Pattern \<times> string list)" where
  "patternToRegex pattern =
     (let parts = filter (\<lambda>part. part \<noteq> []) (split_on CHR ''/'' pattern)
      in case compile_parts parts [] ''^'' [Bol] False of
           Inl e \<Rightarrow> Inl e
         | Inr (tokens, re_str, rx) \<Rightarrow>
             let (re_str1, rx1) =
                   (if re_str \<noteq> ''^'' @ re_slash
                    then (re_str @ re_slash @ ''?'', rx @ [Opt (Chr CHR ''/'')])
                    else (re_str, rx));
                 (re_str2, rx2) = (re_str1 @ ''$'', rx1 @ [Eol])
             in if list_all part_modelled parts
                then Inr (\<lparr>re_source = re_str2, re_prog = rx2\<rparr>, tokens)
                else Inl NotModelled)"

section \<open>Requests and responses\<close>

text \<open>
  Header values are byte strings; the test client also stores None. The header dict is a plain
  dict (test client) or a \<^verbatim>\<open>CaseInsensitiveDict\<close> (server), whose three overridden methods
  upper-case the key.
\<close>

datatype header_value = HBytes string | HNone

definition upper_char :: "char \<Rightarrow> char" where
  "upper_char c =
     (if 97 \<le> (of_char c :: nat) \<and> (of_char c :: nat) \<le> 122
      then char_of ((of_char c :: nat) - 32) else c)"

definition upper :: "string \<Rightarrow> string" where
  "upper s = map upper_char s"

datatype headers =
    PlainDict "(string \<times> header_value list) list"
  | CaseInsensitiveDict "(string \<times> header_value list) list"

fun dict_setitem :: "('k \<times> 'v) list \<Rightarrow> 'k \<Rightarrow> 'v \<Rightarrow> ('k \<times> 'v) list" where
  "dict_setitem [] k v = [(k, v)]"
| "dict_setitem ((k', v') # kvs) k v =
     (if k' = k then (k, v) # kvs else (k', v') # dict_setitem kvs k v)"

fun hdr_setitem :: "headers \<Rightarrow> string \<Rightarrow> header_value list \<Rightarrow> headers" where
  "hdr_setitem (PlainDict d) k v = PlainDict (dict_setitem d k v)"
| "hdr_setitem (CaseInsensitiveDict d) k v = CaseInsensitiveDict (dict_setitem d (upper k) v)"

fun hdr_contains :: "headers \<Rightarrow> string \<Rightarrow> bool" where
  "hdr_contains (PlainDict d) k = (map_of d k \<noteq> None)"
| "hdr_contains (CaseInsensitiveDict d) k = (map_of d (upper k) \<noteq> None)"

fun hdr_getitem :: "headers \<Rightarrow> string \<Rightarrow> error + header_value list" where
  "hdr_getitem (PlainDict d) k = (case map_of d k of None \<Rightarrow> Inl KeyError | Some v \<Rightarrow> Inr v)"
| "hdr_getitem (CaseInsensitiveDict d) k =
     (case map_of d (upper k) of None \<Rightarrow> Inl KeyError | Some v \<Rightarrow> Inr v)"

record Request =
  client_address :: "string \<times> nat"
  req_method :: string
  req_path :: string
  params :: "(string \<times> string option list) list"
  fragment :: string
  req_headers :: headers
  stream :: string
  matches :: "(string \<times> string option) list"

text \<open>
  Python's \<^verbatim>\<open>int\<close> on a header value: TypeError for None; for bytes, white space is stripped
  at both ends, then an optional sign, then decimal digits, single underscores allowed
  between digits; anything else is a ValueError. A number of more than 4300 digits
  (underscores not counted) is a ValueError too: the default of CPython's
  \<^verbatim>\<open>sys.get_int_max_str_digits()\<close>.
\<close>

definition is_space :: "char \<Rightarrow> bool" where
  "is_space c = (c \<in> set [CHR '' '', CHR 0x09, CHR 0x0A, CHR 0x0B, CHR 0x0C, CHR 0x0D])"

definition is_digit :: "char \<Rightarrow> bool" where
  "is_digit c = (48 \<le> (of_char c :: nat) \<and> (of_char c :: nat) \<le> 57)"

definition digit_val :: "char \<Rightarrow> int" where
  "digit_val c = int (of_char c) - 48"

fun parse_digits :: "int \<Rightarrow> bool \<Rightarrow> string \<Rightarrow> int option" where
  "parse_digits acc after_digit [] = (if after_digit then Some acc else None)"
| "parse_digits acc after_digit (c # cs) =
     (if is_digit c then parse_digits (10 * acc + digit_val c) True cs
      else if c = CHR ''_'' \<and> after_digit then parse_digits acc False cs
      else None)"

definition strip :: "string \<Rightarrow> string" where
  "strip s = rev (dropWhile is_space (rev (dropWhile is_space s)))"

definition int_max_str_digits :: nat where
  "int_max_str_digits = 4300"

definition py_int :: "header_value \<Rightarrow> error + int" where
  "py_int v =
     (case v of
        HNone \<Rightarrow> Inl TypeError
      | HBytes s \<Rightarrow>
          (let t = strip s;
               (neg, ds) = (case t of
                              [] \<Rightarrow> (False, [])
                            | c # cs \<Rightarrow> if c = CHR ''-'' then (True, cs)
                                        else if c = CHR ''+'' then (False, cs)
                                        else (False, t))
           in case parse_digits 0 False ds of
                None \<Rightarrow> Inl ValueError
              | Some n \<Rightarrow>
                  if int_max_str_digits < length (filter is_digit ds) then Inl ValueError
                  else Inr (if neg then - n else n)))"

text \<open>
  A response: its class, and the four fields. A payload is bytes, text, the dict
  \<^verbatim>\<open>{'error': msg}\<close> that the dispatcher builds, or some other object of the handler's,
  known by a number.
\<close>

datatype response_class =
  Response_cls | ErrorResponse_cls | JsonResponse_cls | SerializableResponse_cls

datatype payload = Bytes string | Text string | ErrorObject string | Object nat

record Response =
  resp_class :: response_class
  status_code :: int
  resp_headers :: "(string \<times> string) list"
  resp_payload :: payload
  compress :: bool

text \<open>\<^verbatim>\<open>Response.__init__\<close>: no payload is \<^verbatim>\<open>b""\<close>, text is encoded.\<close>

definition Response_init ::
  "response_class \<Rightarrow> payload option \<Rightarrow> int \<Rightarrow> (string \<times> string) list option \<Rightarrow> bool \<Rightarrow> Response" where
  "Response_init cls p status hdrs cmp =
     \<lparr>resp_class = cls, status_code = status,
      resp_headers = (case hdrs of None \<Rightarrow> [] | Some h \<Rightarrow> h),
      resp_payload = (case p of None \<Rightarrow> Bytes [] | Some (Text t) \<Rightarrow> Bytes t | Some q \<Rightarrow> q),
      compress = cmp\<rparr>"

definition JsonResponse :: "payload \<Rightarrow> int \<Rightarrow> Response" where
  "JsonResponse obj status = Response_init JsonResponse_cls (Some obj) status None False"

text \<open>
  The library functions behind rendering are parameters: \<^verbatim>\<open>gzip\<close>, \<^verbatim>\<open>json.dumps\<close> on a
  handler's object, and the \<^verbatim>\<open>dumpb\<close> of a serializable object. \<^verbatim>\<open>json.dumps\<close> of the dict
  \<^verbatim>\<open>{'error': msg}\<close> is written out for a message of printable ASCII without quote or
  backslash, which covers the dispatcher's own messages.
\<close>

record libs =
  gzip_compress :: "string \<Rightarrow> string"
  json_dumps_object :: "nat \<Rightarrow> error + string"
  dumpb :: "nat \<Rightarrow> error + string"

definition json_plain :: "char \<Rightarrow> bool" where
  "json_plain c = (32 \<le> (of_char c :: nat) \<and> (of_char c :: nat) \<le> 126
                    \<and> c \<noteq> CHR 0x22 \<and> c \<noteq> CHR 0x5C)"

definition json_dumps :: "libs \<Rightarrow> payload \<Rightarrow> error + string" where
  \<open>json_dumps l p =
     (case p of
        Bytes b \<Rightarrow> Inl TypeError
      | Text t \<Rightarrow> (if list_all json_plain t then Inr ([CHR 0x22] @ t @ [CHR 0x22]) else Inl NotModelled)
      | ErrorObject msg \<Rightarrow>
          (if list_all json_plain msg
           then Inr (''{'' @ [CHR 0x22] @ ''error'' @ [CHR 0x22] @ '': '' @ [CHR 0x22] @ msg @ [CHR 0x22] @ ''}'')
           else Inl NotModelled)
      | Object n \<Rightarrow> json_dumps_object l n)\<close>

text \<open>\<^verbatim>\<open>str(n)\<close> for a length.\<close>

fun str_nat :: "nat \<Rightarrow> string" where
  "str_nat n = (if n < 10 then [char_of (48 + n)] else str_nat (n div 10) @ [char_of (48 + n mod 10)])"

text \<open>
  \<^verbatim>\<open>Response._get_payload\<close>: the payload to send and the response as rendering leaves it.
  \<^verbatim>\<open>GzipFile.write\<close> takes bytes only.
\<close>

definition Response_get_payload :: "libs \<Rightarrow> Response \<Rightarrow> error + (payload \<times> Response)" where
  "Response_get_payload l r =
     (if compress r then
        (case resp_payload r of
           Bytes b \<Rightarrow>
             Inr (Bytes (gzip_compress l b),
                  r\<lparr>resp_payload := Bytes (gzip_compress l b),
                    resp_headers := dict_setitem (dict_setitem (resp_headers r)
                                      ''Vary'' ''Accept-Encoding'') ''Content-Encoding'' ''gzip''\<rparr>)
         | _ \<Rightarrow> Inl TypeError)
      else Inr (resp_payload r, r))"

text \<open>\<^verbatim>\<open>JsonResponse._get_payload\<close>\<close>

definition JsonResponse_get_payload :: "libs \<Rightarrow> Response \<Rightarrow> error + (payload \<times> Response)" where
  "JsonResponse_get_payload l r =
     (case Response_get_payload l r of
        Inl e \<Rightarrow> Inl e
      | Inr (p, r1) \<Rightarrow>
          (case json_dumps l p of
             Inl e \<Rightarrow> Inl e
           | Inr text \<Rightarrow>
               let encoded = text @ [CHR 0x0A]
               in Inr (Bytes encoded,
                       r1\<lparr>resp_headers := dict_setitem (dict_setitem (resp_headers r1)
                            ''Content-Type'' ''application/json'')
                            ''Content-Length'' (str_nat (length encoded))\<rparr>)))"

text \<open>\<^verbatim>\<open>SerializableResponse._get_payload\<close>; only an object has a \<^verbatim>\<open>dumpb\<close>.\<close>

definition SerializableResponse_get_payload :: "libs \<Rightarrow> Response \<Rightarrow> error + (payload \<times> Response)" where
  "SerializableResponse_get_payload l r =
     (case Response_get_payload l r of
        Inl e \<Rightarrow> Inl e
      | Inr (p, r1) \<Rightarrow>
          (case (case p of Object n \<Rightarrow> dumpb l n | _ \<Rightarrow> Inl AttributeError) of
             Inl e \<Rightarrow> Inl e
           | Inr encoded \<Rightarrow>
               Inr (Bytes encoded,
                    r1\<lparr>resp_headers := dict_setitem (dict_setitem (resp_headers r1)
                         ''Content-Type'' ''application/x-serializable'')
                         ''Content-Length'' (str_nat (length encoded))\<rparr>)))"

text \<open>The method call \<^verbatim>\<open>response._get_payload(request)\<close>, by the class of the response.\<close>

definition get_payload :: "libs \<Rightarrow> Response \<Rightarrow> error + (payload \<times> Response)" where
  "get_payload l r =
     (case resp_class r of
        JsonResponse_cls \<Rightarrow> JsonResponse_get_payload l r
      | SerializableResponse_cls \<Rightarrow> SerializableResponse_get_payload l r
      | _ \<Rightarrow> Response_get_payload l r)"

section \<open>Routes and the router\<close>

text \<open>
  What a handler call does: it raises, or returns None, a response, or a value that is no
  \<^verbatim>\<open>Response\<close> (known by the name of its type).
\<close>

datatype handler_result = ReturnsNone | ReturnsResponse Response | ReturnsOther string

record Route =
  route_name :: string
  route_method :: string
  route_pattern :: string
  callback :: "Request \<Rightarrow> error + handler_result"
  ratelimit :: "(int \<times> string) option"
  route_options :: "(string \<times> int) list"

record Router =
  route_table :: "string \<rightharpoonup> (re_Pattern \<times> string list \<times> Route) list"
  routes :: "Route list"
  limiter :: RateLimiter

text \<open>\<^verbatim>\<open>Router.__init__\<close>\<close>

definition Router_init :: "error + Router" where
  "Router_init =
     (case RateLimiter_init 5 (60 * 1000) 1024 of
        Inl e \<Rightarrow> Inl e
      | Inr rl \<Rightarrow>
          Inr \<lparr>route_table = [''DELETE'' \<mapsto> [], ''GET'' \<mapsto> [], ''POST'' \<mapsto> [], ''PUT'' \<mapsto> []],
               routes = [], limiter = rl\<rparr>)"

text \<open>
  \<^verbatim>\<open>Router.registerRoutes\<close> for a list of routes: the exception raised, if any, and the router
  as the call leaves it (the routes before a failing one stay registered).
\<close>

fun registerRoutes :: "Router \<Rightarrow> Route list \<Rightarrow> error option \<times> Router" where
  "registerRoutes router [] = (None, router)"
| "registerRoutes router (route # rest) =
     (case patternToRegex (route_pattern route) of
        Inl e \<Rightarrow> (Some e, router)
      | Inr (regex, tokens) \<Rightarrow>
          (case route_table router (route_method route) of
             None \<Rightarrow> (Some ValueError, router)
           | Some entries \<Rightarrow>
               registerRoutes
                 (router\<lparr>route_table := (route_table router)
                                           (route_method route \<mapsto> entries @ [(regex, tokens, route)]),
                         routes := routes router @ [route]\<rparr>)
                 rest))"

text \<open>
  \<^verbatim>\<open>{k: v for k, v in zip(tokens, m.groups())}\<close>: the dict in insertion order; the value of
  a repeated key replaces the earlier one.
\<close>

definition dict_of_zip :: "string list \<Rightarrow> string option list \<Rightarrow> (string \<times> string option) list" where
  "dict_of_zip tokens groups = fold (\<lambda>(k, v) d. dict_setitem d k v) (zip tokens groups) []"

text \<open>The \<^verbatim>\<open>for\<close> loop of \<^verbatim>\<open>getRoute\<close> over one method's list.\<close>

fun scan_routes ::
  "(re_Pattern \<times> string list \<times> Route) list \<Rightarrow> string
     \<Rightarrow> (Route \<times> (string \<times> string option) list) option" where
  "scan_routes [] path = None"
| "scan_routes ((re_ptn, tokens, endpt) # rest) path =
     (case re_match re_ptn path of
        Some groups \<Rightarrow> Some (endpt, dict_of_zip tokens groups)
      | None \<Rightarrow> scan_routes rest path)"

text \<open>\<^verbatim>\<open>Router.getRoute(method, path)\<close>\<close>

definition getRoute ::
  "Router \<Rightarrow> string \<Rightarrow> string \<Rightarrow> (Route \<times> (string \<times> string option) list) option" where
  "getRoute router method path =
     (case route_table router method of
        None \<Rightarrow> None
      | Some entries \<Rightarrow> scan_routes entries path)"

text \<open>
  The payload check of \<^verbatim>\<open>request_response\<close> for a route whose options hold
  \<^verbatim>\<open>max_content_length\<close>: the error response, if any. Every exception of
  \<^verbatim>\<open>int(request.headers[b'Content-Length'][0])\<close> leaves the length at zero.
\<close>

definition check_content_length :: "Request \<Rightarrow> int \<Rightarrow> Response option" where
  "check_content_length request max_content_length =
     (let (response, request_content_length) =
            (if \<not> hdr_contains (req_headers request) ''Content-Length''
             then (Some (JsonResponse (ErrorObject ''Content-Length not specified'') 411), 0)
             else (None,
                   (case hdr_getitem (req_headers request) ''Content-Length'' of
                      Inl e \<Rightarrow> 0
                    | Inr [] \<Rightarrow> 0
                    | Inr (v # _) \<Rightarrow>
                        (case py_int v of
                           Inl e \<Rightarrow> 0
                         | Inr n \<Rightarrow> if n < 0 then 0 else n))))
      in if request_content_length > max_content_length
         then Some (JsonResponse (ErrorObject ''Payload too large'') 413)
         else response)"

text \<open>
  The end of \<^verbatim>\<open>request_response\<close>: None becomes the 500 response, a value that is no
  \<^verbatim>\<open>Response\<close> raises TypeError.
\<close>

fun finish_response :: "handler_result \<Rightarrow> error + Response" where
  "finish_response ReturnsNone =
     Inr (JsonResponse (ErrorObject ''route failed to return a response'') 500)"
| "finish_response (ReturnsResponse r) = Inr r"
| "finish_response (ReturnsOther t) = Inl TypeError"

text \<open>
  The \<^verbatim>\<open>try\<close> around the callback: \<^verbatim>\<open>except Exception\<close> turns the exceptions of that class
  into None; any other one leaves \<^verbatim>\<open>request_response\<close>.
\<close>

definition run_callback :: "Route \<Rightarrow> Request \<Rightarrow> error + handler_result" where
  "run_callback endpt request =
     (case callback endpt request of
        Inl e \<Rightarrow> if is_Exception e then Inr ReturnsNone else Inl e
      | Inr v \<Rightarrow> Inr v)"

text \<open>\<^verbatim>\<open>request_response(router, request)\<close>\<close>

definition request_response :: "Router \<Rightarrow> Request \<Rightarrow> error + Response" where
  "request_response router request =
     (case getRoute router (req_method request) (req_path request) of
        None \<Rightarrow> Inr (JsonResponse (ErrorObject ''path not found'') 404)
      | Some (endpt, ms) \<Rightarrow>
          let request = request\<lparr>matches := ms\<rparr>;
              response =
                (case map_of (route_options endpt) ''max_content_length'' of
                   None \<Rightarrow> None
                 | Some max_content_length \<Rightarrow> check_content_length request max_content_length)
          in (case (case response of
                      None \<Rightarrow> run_callback endpt request
                    | Some r \<Rightarrow> Inr (ReturnsResponse r)) of
                Inl e \<Rightarrow> Inl e
              | Inr v \<Rightarrow> finish_response v))"

text \<open>
  \<^verbatim>\<open>Router.dispatch(request)\<close> at clock reading \<open>ms\<close>: the response, the rendered payload and
  the router with the limiter as the call leaves it.
\<close>

definition dispatch ::
  "libs \<Rightarrow> int \<Rightarrow> Router \<Rightarrow> Request \<Rightarrow> error + ((Response \<times> payload) \<times> Router)" where
  "dispatch l ms router request =
     (case insert_key ms (fst (client_address request)) (limiter router) of
        Inl e \<Rightarrow> Inl e
      | Inr (blocked, rl) \<Rightarrow>
          let router = router\<lparr>limiter := rl\<rparr>
          in (case (if blocked
                    then Inr (JsonResponse (ErrorObject ''Too Many Requests'') 429)
                    else request_response router request) of
                Inl e \<Rightarrow> Inl e
              | Inr response \<Rightarrow>
                  (case get_payload l response of
                     Inl e \<Rightarrow> Inl e
                   | Inr (p, response') \<Rightarrow> Inr ((response', p), router))))"

section \<open>Reachable routers and sample data\<close>

text \<open>
  The routers a program can hold: the one \<^verbatim>\<open>Router()\<close> builds, and what \<^verbatim>\<open>registerRoutes\<close>
  and \<^verbatim>\<open>dispatch\<close> make of one.
\<close>

inductive router_state :: "Router \<Rightarrow> bool" where
  init: "Router_init = Inr r \<Longrightarrow> router_state r"
| register: "router_state r \<Longrightarrow> router_state (snd (registerRoutes r rs))"
| dispatched: "router_state r \<Longrightarrow> dispatch l ms r request = Inr (out, r') \<Longrightarrow> router_state r'"

text \<open>The value of \<^verbatim>\<open>Router()\<close>, written out (see \<open>Router_init_fresh\<close>).\<close>

definition fresh_router :: Router where
  "fresh_router =
     \<lparr>route_table = [''DELETE'' \<mapsto> [], ''GET'' \<mapsto> [], ''POST'' \<mapsto> [], ''PUT'' \<mapsto> []],
      routes = [],
      limiter = \<lparr>rl_counter = \<lparr>cache_len = 128, cd_items = [(''capacity'', IntVal 1024)]\<rparr>,
                 rl_blocked = \<lparr>cache_len = 128, cd_items = [(''capacity'', IntVal 1024)]\<rparr>,
                 rl_limit = 5, rl_interval_ms = 60000\<rparr>\<rparr>"

text \<open>
  Sample routes, as \<^verbatim>\<open>Resource.__init__\<close> builds them from decorated methods: the default
  \<^verbatim>\<open>ratelimit\<close> is \<^verbatim>\<open>(1, "second")\<close>, and \<^verbatim>\<open>put\<close> stores \<^verbatim>\<open>max_content_length\<close>.
\<close>

definition sample_route ::
  "string \<Rightarrow> string \<Rightarrow> string \<Rightarrow> (Request \<Rightarrow> error + handler_result) \<Rightarrow> (string \<times> int) list \<Rightarrow> Route" where
  "sample_route name method pattern f opts =
     \<lparr>route_name = name, route_method = method, route_pattern = pattern, callback = f,
      ratelimit = Some (1, ''second''), route_options = opts\<rparr>"

definition sample_request :: "string \<Rightarrow> string \<Rightarrow> (string \<times> header_value list) list \<Rightarrow> Request" where
  "sample_request method path hdrs =
     \<lparr>client_address = (''127.0.0.1'', 54321), req_method = method, req_path = path,
      params = [], fragment = [], req_headers = fold (\<lambda>(k, v) h. hdr_setitem h k v) hdrs (CaseInsensitiveDict []),
      stream = [], matches = []\<rparr>"

definition sample_libs :: libs where
  "sample_libs = \<lparr>gzip_compress = id, json_dumps_object = (\<lambda>n. Inl TypeError),
                   dumpb = (\<lambda>n. Inl AttributeError)\<rparr>"

text \<open>Successive \<^verbatim>\<open>insert\<close> calls for a list of keys, all at the clock reading \<open>ms\<close>.\<close>

fun insert_keys :: "int \<Rightarrow> string list \<Rightarrow> RateLimiter \<Rightarrow> error + RateLimiter" where
  "insert_keys ms [] rl = Inr rl"
| "insert_keys ms (k # ks) rl =
     (case insert_key ms k rl of Inl e \<Rightarrow> Inl e | Inr (b, rl') \<Rightarrow> insert_keys ms ks rl')"

text \<open>
  Sample handlers: one that returns None, one that returns a response, one that raises an
  exception of class \<^verbatim>\<open>Exception\<close>, one that raises \<^verbatim>\<open>SystemExit\<close>, and one that returns a
  string.
\<close>

definition no_handler :: "Request \<Rightarrow> error + handler_result" where
  "no_handler request = Inr ReturnsNone"

definition ok_handler :: "Request \<Rightarrow> error + handler_result" where
  "ok_handler request = Inr (ReturnsResponse (Response_init Response_cls (Some (Text ''ok'')) 200 None False))"

definition failing_handler :: "Request \<Rightarrow> error + handler_result" where
  "failing_handler request = Inl (OtherException ''RuntimeError'')"

definition exit_handler :: "Request \<Rightarrow> error + handler_result" where
  "exit_handler request = Inl (SystemExiting ''SystemExit'')"

definition bad_handler :: "Request \<Rightarrow> error + handler_result" where
  "bad_handler request = Inr (ReturnsOther ''str'')"

text \<open>The routes of the examples in the specification.\<close>

definition files_route :: Route where
  "files_route = sample_route ''files.get_file'' ''GET'' ''/files/:rest*'' no_handler []"

definition user_id_route :: Route where
  "user_id_route = sample_route ''user.get_user'' ''GET'' ''/user/:id'' no_handler []"

definition user_admin_route :: Route where
  "user_admin_route = sample_route ''user.get_admin'' ''GET'' ''/user/admin'' no_handler []"

text \<open>An optional or greedy token: a token segment that ends in \<^verbatim>\<open>?\<close>, \<^verbatim>\<open>*\<close> or \<^verbatim>\<open>+\<close>.\<close>

definition is_greedy :: "string \<Rightarrow> bool" where
  "is_greedy part = (is_token part \<and> (last part = CHR ''?'' \<or> last part = CHR ''*'' \<or> last part = CHR ''+''))"

text \<open>
  A PUT route with a maximum body size, a router that holds one route, and requests to them.
\<close>

definition upload_route :: "int \<Rightarrow> Route" where
  "upload_route max_len =
     sample_route ''upload.put_file'' ''PUT'' ''/upload'' ok_handler [(''max_content_length'', max_len)]"

definition single_route_router :: "Route \<Rightarrow> Router" where
  "single_route_router rt = snd (registerRoutes fresh_router [rt])"

definition upload_router :: Router where
  "upload_router = single_route_router (upload_route 10)"

definition upload_request :: "(string \<times> header_value list) list \<Rightarrow> Request" where
  "upload_request hdrs = sample_request ''PUT'' ''/upload'' hdrs"

definition handler_route :: "(Request \<Rightarrow> error + handler_result) \<Rightarrow> Route" where
  "handler_route f = sample_route ''app.run'' ''GET'' ''/run'' f []"

definition run_request :: Request where
  "run_request = sample_request ''GET'' ''/run'' []"

text \<open>A clock reading of November 2023, in milliseconds.\<close>

definition clock_2023 :: int where
  "clock_2023 = 1700000000000"

text \<open>A router whose limiter has been replaced by one with limit 0.\<close>

definition strict_router :: Router where
  "strict_router = fresh_router\<lparr>limiter := (limiter fresh_router)\<lparr>rl_limit := 0\<rparr>\<rparr>"

text \<open>An expression in which \<^verbatim>\<open>$\<close> does not occur.\<close>

fun eol_free :: "regex \<Rightarrow> bool" where
  "eol_free Eol = False"
| "eol_free (Opt r) = eol_free r"
| "eol_free (Alt a b) = (eol_free a \<and> eol_free b)"
| "eol_free (Seq a b) = (eol_free a \<and> eol_free b)"
| "eol_free (Group i r) = eol_free r"
| "eol_free _ = True"

text \<open>The non-empty segments of a pattern, as \<^verbatim>\<open>patternToRegex\<close> takes them.\<close>

definition pattern_parts :: "string \<Rightarrow> string list" where
  "pattern_parts pattern = filter (\<lambda>part. part \<noteq> []) (split_on CHR ''/'' pattern)"

text \<open>A plain segment: a token, or a literal segment without any character of \<open>re_meta\<close>.\<close>

definition plain_part :: "string \<Rightarrow> bool" where
  "plain_part part = (is_token part \<or> \<not> list_ex re_meta part)"

text \<open>
  What the loop of \<^verbatim>\<open>patternToRegex\<close> builds for segments without optional or greedy token,
  the first token taking group \<open>g\<close> (see \<open>compile_parts_front\<close>).
\<close>

fun front_rx :: "nat \<Rightarrow> string list \<Rightarrow> regex list" where
  "front_rx g [] = []"
| "front_rx g (part # parts) =
     (if is_token part then rx_plain g @ front_rx (Suc g) parts
      else Chr CHR ''/'' # map lit_atom part @ front_rx g parts)"

text \<open>
  A path written after a list of segments: a slash and the segment itself for a literal
  segment, a slash and the next value of \<open>vals\<close> for a token.
\<close>

fun fill :: "string list \<Rightarrow> string list \<Rightarrow> string" where
  "fill [] vals = []"
| "fill (part # parts) vals =
     (if is_token part then (case vals of [] \<Rightarrow> [] | v # vs \<Rightarrow> ''/'' @ v @ fill parts vs)
      else ''/'' @ part @ fill parts vals)"

text \<open>A value for a plain token: a path segment, not empty and without slash.\<close>

definition seg_value :: "string \<Rightarrow> bool" where
  "seg_value v = (v \<noteq> [] \<and> CHR ''/'' \<notin> set v)"

section \<open>The rate limiter\<close>

text \<open>
  Once the stored index lags the clock's bin index by more than the number of bins, every call
  takes the reset branch: the index is not stored there, so the next call resets again and the
  count stays 1.
\<close>

lemma increment_stale_index:
  assumes "rc_interval_ms rc \<noteq> 0" and "0 \<le> rc_bins rc"
    and "ms div rc_interval_ms rc - rc_current_index rc > rc_bins rc"
  shows "increment ms rc = Inr (1, rc\<lparr>rc_counts := [1], rc_count := 1\<rparr>)"
  using assms by (auto simp: increment_def Let_def)

text \<open>
  Claim C1. A limiter built with limit 5 and interval 60000 ms should answer "not blocked" to
  the first five \<^verbatim>\<open>insert\<close> calls of a fresh key within one window and "blocked" to the sixth.
  At the clock reading 1700000000000 ms (November 2023), six calls for the key \<^verbatim>\<open>A\<close> at one and
  the same instant all answer "not blocked": the sixth is not blocked.
\<close>

theorem sixth_insert_not_blocked:
  "(case RateLimiter_init 5 60000 2 of
      Inl e \<Rightarrow> Inl e
    | Inr rl \<Rightarrow> map_sum id fst (insert_all (replicate 6 1700000000000) ''A'' rl))
   = Inr [False, False, False, False, False, False]"
  by code_simp

lemma increment_count_stays_one:
  assumes "rc_interval_ms rc \<noteq> 0" and "0 \<le> rc_bins rc"
    and "ms div rc_interval_ms rc - rc_current_index rc > rc_bins rc"
    and "increment ms rc = Inr (n, rc')"
  shows "n = 1 \<and> rc_current_index rc' = rc_current_index rc"
  using assms by (auto simp: increment_def Let_def)

section \<open>path_join_safe\<close>

text \<open>
  Claim C3. \<^verbatim>\<open>path_join_safe\<close> should raise when a component of the file name is \<^verbatim>\<open>.\<close> or
  \<^verbatim>\<open>..\<close> and otherwise return an absolute, normalized path under the root directory. For the
  root \<^verbatim>\<open>/srv/www\<close> and the file name \<^verbatim>\<open>/etc/passwd\<close>, whose components are the empty string,
  \<^verbatim>\<open>etc\<close> and \<^verbatim>\<open>passwd\<close>, it returns \<^verbatim>\<open>/etc/passwd\<close>, whatever the working directory: the
  join drops the root before an absolute second argument, and the result is not under the root.
\<close>

theorem absolute_filename_escapes_root:
  "path_join_safe cwd ''/srv/www'' ''/etc/passwd'' = Inr ''/etc/passwd''
   \<and> \<not> prefix ''/srv/www'' ''/etc/passwd''"
  by (simp add: path_join_safe_def replace_backslash_def posix_join_def posix_isabs_def
      posix_abspath_def posix_normpath_def)

section \<open>The router's limiter and its key cache\<close>

lemma RateLimiter_init_value:
  "RateLimiter_init limit interval capacity =
     Inr \<lparr>rl_counter = \<lparr>cache_len = 128, cd_items = [(''capacity'', IntVal capacity)]\<rparr>,
          rl_blocked = \<lparr>cache_len = 128, cd_items = [(''capacity'', IntVal capacity)]\<rparr>,
          rl_limit = limit, rl_interval_ms = interval\<rparr>"
  by (simp add: RateLimiter_init_def CacheDict_init_def default_cache_len_def cd_setitem_def
      move_to_end_def)

lemma Router_init_fresh: "Router_init = Inr fresh_router"
  by (simp add: Router_init_def RateLimiter_init_value fresh_router_def)

text \<open>
  Claim C4. The router's limiter should have limit 5, window 60000 ms, 4 bins, and a key cache
  of 1024 keys. \<^verbatim>\<open>Router()\<close> gives limit 5 and window 60000 ms, but a key cache whose
  \<^verbatim>\<open>cache_len\<close> is 128 and which already holds the key \<^verbatim>\<open>capacity\<close> with the value 1024.
\<close>

theorem router_key_cache_len_128:
  "Router_init = Inr fresh_router
   \<and> cache_len (rl_counter (limiter fresh_router)) = 128
   \<and> cd_items (rl_counter (limiter fresh_router)) = [(''capacity'', IntVal 1024)]
   \<and> rl_limit (limiter fresh_router) = 5 \<and> rl_interval_ms (limiter fresh_router) = 60000"
  by (simp add: Router_init_def RateLimiter_init_value fresh_router_def)

text \<open>The cache never grows beyond its \<^verbatim>\<open>cache_len\<close>: at most 128 keys for the router.\<close>

lemma evict_oldest_length:
  "evict_oldest kvs n = Inr kvs' \<Longrightarrow> 0 \<le> n \<Longrightarrow> int (length kvs') \<le> n"
  by (induction kvs n rule: evict_oldest.induct) (auto split: if_splits)

lemma move_to_end_length: "length (move_to_end kvs k) = length kvs"
  by (simp add: move_to_end_def sum_length_filter_compl add.commute)

lemma insert_key_bounded:
  assumes "insert_key ms k rl = Inr (b, rl')" and "0 \<le> cache_len (rl_counter rl)"
    and "int (length (cd_items (rl_counter rl))) \<le> cache_len (rl_counter rl)"
  shows "cache_len (rl_counter rl') = cache_len (rl_counter rl)
         \<and> int (length (cd_items (rl_counter rl'))) \<le> cache_len (rl_counter rl)"
  using assms
  by (auto simp: insert_key_def cd_setitem_def cd_getitem_def cd_store_def move_to_end_length
      split: if_splits sum.splits option.splits cache_value.splits prod.splits
      dest: evict_oldest_length)

lemma insert_keys_bounded:
  assumes "insert_keys ms ks rl = Inr rl'" and "0 \<le> cache_len (rl_counter rl)"
    and "int (length (cd_items (rl_counter rl))) \<le> cache_len (rl_counter rl)"
  shows "cache_len (rl_counter rl') = cache_len (rl_counter rl)
         \<and> int (length (cd_items (rl_counter rl'))) \<le> cache_len (rl_counter rl)"
  using assms
proof (induction ks arbitrary: rl)
  case Nil
  then show ?case by simp
next
  case (Cons k ks)
  from Cons.prems(1) obtain b rl1 where 1: "insert_key ms k rl = Inr (b, rl1)"
    and 2: "insert_keys ms ks rl1 = Inr rl'"
    by (auto split: sum.splits)
  from insert_key_bounded[OF 1 Cons.prems(2,3)] Cons.IH[OF 2] show ?case by simp
qed

lemma router_cache_never_above_128:
  "insert_keys ms ks (limiter fresh_router) = Inr rl \<Longrightarrow> length (cd_items (rl_counter rl)) \<le> 128"
  using insert_keys_bounded[of ms ks "limiter fresh_router" rl] by (simp add: fresh_router_def)

section \<open>Pattern compilation\<close>

text \<open>
  The loop raises exactly when it meets an optional or greedy token after an earlier one, and
  it raises nothing but ValueError.
\<close>

lemma compile_parts_error_iff:
  "(\<exists>e. compile_parts parts tokens re_str rx final = Inl e) \<longleftrightarrow>
     (if final then 1 else 2) \<le> length (filter is_greedy parts)"
proof (induction parts tokens re_str rx final rule: compile_parts.induct)
  case (1 tokens re_str rx final)
  then show ?case by simp
next
  case (2 part parts tokens re_str rx final)
  show ?case
  proof (cases "is_greedy part")
    case True
    then show ?thesis using 2 by (auto simp: is_greedy_def Let_def)
  next
    case False
    then show ?thesis using 2 by (auto simp: is_greedy_def Let_def)
  qed
qed

lemma compile_parts_only_ValueError:
  "compile_parts parts tokens re_str rx final = Inl e \<Longrightarrow> e = ValueError"
  by (induction parts tokens re_str rx final rule: compile_parts.induct)
     (auto simp: Let_def split: if_splits)

lemma patternToRegex_ValueError_iff:
  "patternToRegex pattern = Inl ValueError \<longleftrightarrow>
     2 \<le> length (filter is_greedy (filter (\<lambda>part. part \<noteq> []) (split_on CHR ''/'' pattern)))"
proof -
  let ?parts = "filter (\<lambda>part. part \<noteq> []) (split_on CHR ''/'' pattern)"
  show ?thesis
  proof (cases "compile_parts ?parts [] ''^'' [Bol] False")
    case (Inl e)
    then have "e = ValueError" by (rule compile_parts_only_ValueError)
    moreover have "2 \<le> length (filter is_greedy ?parts)"
      using compile_parts_error_iff[of ?parts "[]" "''^''" "[Bol]" False] Inl by auto
    ultimately show ?thesis using Inl by (simp add: patternToRegex_def)
  next
    case (Inr res)
    then have "\<not> 2 \<le> length (filter is_greedy ?parts)"
      using compile_parts_error_iff[of ?parts "[]" "''^''" "[Bol]" False] by auto
    then show ?thesis using Inr
      by (auto simp: patternToRegex_def Let_def split: prod.splits if_splits)
  qed
qed

text \<open>
  Claim C2. Compiling a pattern should raise the invalid-pattern error when an optional or
  greedy token is not the last segment. The patterns \<^verbatim>\<open>/:a?/b\<close> and \<^verbatim>\<open>/:rest*/:id\<close> have
  such a token before their last segment and compile without error, with the tokens \<^verbatim>\<open>a\<close>, and
  \<^verbatim>\<open>rest\<close> and \<^verbatim>\<open>id\<close>: the flag \<^verbatim>\<open>final\<close> is tested only when a further optional or greedy token
  comes, not at a literal or a plain token.
\<close>

theorem misplaced_optional_token_compiles:
  "map_sum id snd (patternToRegex ''/:a?/b'') = Inr [''a'']
   \<and> map_sum id snd (patternToRegex ''/:rest*/:id'') = Inr [''rest'', ''id'']"
  by code_simp

section \<open>Route lookup\<close>

lemma scan_routes_find:
  "scan_routes entries path =
     (case find (\<lambda>(re_ptn, tokens, endpt). re_match re_ptn path \<noteq> None) entries of
        None \<Rightarrow> None
      | Some (re_ptn, tokens, endpt) \<Rightarrow> Some (endpt, dict_of_zip tokens (the (re_match re_ptn path))))"
  by (induction entries path rule: scan_routes.induct) (auto split: option.splits)

lemma dom_upd_present: "m k = Some x \<Longrightarrow> dom (m(k \<mapsto> v)) = dom m"
  by (simp add: insert_absorb domI)

lemma registerRoutes_dom: "dom (route_table (snd (registerRoutes r rs))) = dom (route_table r)"
proof (induction r rs rule: registerRoutes.induct)
  case (1 router)
  then show ?case by simp
next
  case (2 router route rest)
  show ?case
  proof (cases "patternToRegex (route_pattern route)")
    case (Inl e)
    then show ?thesis by simp
  next
    case (Inr res)
    obtain regex tokens where res: "res = (regex, tokens)" by (cases res)
    show ?thesis
    proof (cases "route_table router (route_method route)")
      case None
      then show ?thesis using Inr res by simp
    next
      case (Some entries)
      let ?r' = "router\<lparr>route_table := (route_table router)
                          (route_method route \<mapsto> entries @ [(regex, tokens, route)]),
                        routes := routes router @ [route]\<rparr>"
      have eq: "registerRoutes router (route # rest) = registerRoutes ?r' rest"
        using Inr res Some by simp
      have "dom (route_table (snd (registerRoutes ?r' rest))) = dom (route_table ?r')"
        by (rule 2[OF Inr res[symmetric] Some])
      moreover have "route_table ?r' = (route_table router)
                          (route_method route \<mapsto> entries @ [(regex, tokens, route)])"
        by simp
      moreover have "dom ((route_table router)
                          (route_method route \<mapsto> entries @ [(regex, tokens, route)]))
                     = dom (route_table router)"
        using Some by (rule dom_upd_present)
      ultimately show ?thesis unfolding eq by (simp only:)
    qed
  qed
qed

lemma dispatch_route_table: "dispatch l ms r request = Inr (out, r') \<Longrightarrow> route_table r' = route_table r"
  by (auto simp: dispatch_def Let_def split: sum.splits prod.splits if_splits)

lemma fresh_router_dom: "dom (route_table fresh_router) = {''DELETE'', ''GET'', ''POST'', ''PUT''}"
  unfolding fresh_router_def by (simp add: insert_commute)

lemma router_state_dom:
  "router_state r \<Longrightarrow> dom (route_table r) = {''DELETE'', ''GET'', ''POST'', ''PUT''}"
proof (induction rule: router_state.induct)
  case (init r)
  then have "r = fresh_router" by (simp add: Router_init_fresh)
  then show ?case by (simp only: fresh_router_dom)
next
  case (register r rs)
  then show ?case by (simp add: registerRoutes_dom)
next
  case (dispatched r l ms request out r')
  then show ?case by (simp add: dispatch_route_table)
qed

lemma user_routes_registered:
  "map_option (\<lambda>(endpt, caps). (route_name endpt, route_pattern endpt, caps))
     (getRoute (snd (registerRoutes fresh_router [user_id_route, user_admin_route]))
        ''GET'' ''/user/admin'')
   = Some (''user.get_user'', ''/user/:id'', [(''id'', Some ''admin'')])"
  by code_simp

text \<open>
  Claim C7. \<^verbatim>\<open>getRoute\<close> scans the list of the method in registration order and returns the
  route of the first matcher that accepts the path, with the dict of its tokens and captures;
  with \<^verbatim>\<open>/user/:id\<close> registered before \<^verbatim>\<open>/user/admin\<close>, the path \<^verbatim>\<open>/user/admin\<close> resolves to
  the first route with \<^verbatim>\<open>id\<close> captured as \<^verbatim>\<open>admin\<close>; and in every router that \<^verbatim>\<open>Router()\<close>,
  \<^verbatim>\<open>registerRoutes\<close> and \<^verbatim>\<open>dispatch\<close> can produce, a method other than GET, PUT, POST and DELETE
  has no match.
\<close>

theorem getRoute_first_match:
  assumes "router_state r" and "method \<notin> {''GET'', ''PUT'', ''POST'', ''DELETE''}"
  shows "getRoute router m path =
           (case route_table router m of
              None \<Rightarrow> None
            | Some entries \<Rightarrow>
                (case find (\<lambda>(re_ptn, tokens, endpt). re_match re_ptn path \<noteq> None) entries of
                   None \<Rightarrow> None
                 | Some (re_ptn, tokens, endpt) \<Rightarrow>
                     Some (endpt, dict_of_zip tokens (the (re_match re_ptn path)))))
         \<and> map_option (\<lambda>(endpt, caps). (route_name endpt, route_pattern endpt, caps))
               (getRoute (snd (registerRoutes fresh_router [user_id_route, user_admin_route]))
                  ''GET'' ''/user/admin'')
             = Some (''user.get_user'', ''/user/:id'', [(''id'', Some ''admin'')])
         \<and> getRoute r method path' = None"
proof -
  have "method \<notin> dom (route_table r)"
    using assms router_state_dom[OF assms(1)] by auto
  then have unsupported: "getRoute r method path' = None"
    by (auto simp: getRoute_def split: option.splits)
  have scan: "getRoute router m path =
           (case route_table router m of
              None \<Rightarrow> None
            | Some entries \<Rightarrow>
                (case find (\<lambda>(re_ptn, tokens, endpt). re_match re_ptn path \<noteq> None) entries of
                   None \<Rightarrow> None
                 | Some (re_ptn, tokens, endpt) \<Rightarrow>
                     Some (endpt, dict_of_zip tokens (the (re_match re_ptn path)))))"
    by (simp add: getRoute_def scan_routes_find split: option.splits)
  from scan user_routes_registered unsupported show ?thesis by (intro conjI)
qed

theorem getRoute_first_match_witness:
  "router_state fresh_router \<and> ''PATCH'' \<notin> {''GET'', ''PUT'', ''POST'', ''DELETE''}
   \<and> getRoute fresh_router ''PATCH'' ''/user/admin'' = None"
proof -
  have 1: "router_state fresh_router" by (rule router_state.init) (rule Router_init_fresh)
  have 2: "''PATCH'' \<notin> {''GET'', ''PUT'', ''POST'', ''DELETE''}" by simp
  from getRoute_first_match[OF 1 2] 1 2 show ?thesis by blast
qed

section \<open>Payload validation\<close>

lemma hdr_getitem_contains: "hdr_getitem h k = Inr vs \<Longrightarrow> hdr_contains h k"
  by (cases h) (auto split: option.splits)

lemma getRoute_single:
  assumes "patternToRegex (route_pattern rt) = Inr (P, toks)"
    and "route_table fresh_router (route_method rt) = Some []"
    and "re_match P path = Some gs"
  shows "getRoute (single_route_router rt) (route_method rt) path = Some (rt, dict_of_zip toks gs)"
  using assms by (simp add: getRoute_def single_route_router_def)

lemma upload_compiled:
  "map_sum id (\<lambda>(P, toks). (toks, re_match P ''/upload'')) (patternToRegex ''/upload'') = Inr ([], Some [])"
  by code_simp

lemma getRoute_upload:
  "getRoute (single_route_router (upload_route m)) ''PUT'' ''/upload'' = Some (upload_route m, [])"
proof -
  from upload_compiled obtain P where P: "patternToRegex ''/upload'' = Inr (P, [])"
    and m: "re_match P ''/upload'' = Some []"
    by (cases "patternToRegex ''/upload''") auto
  have 1: "route_pattern (upload_route m) = ''/upload''" and 2: "route_method (upload_route m) = ''PUT''"
    by (simp_all add: upload_route_def sample_route_def)
  have 3: "route_table fresh_router ''PUT'' = Some []" by (simp add: fresh_router_def)
  from getRoute_single[of "upload_route m" P "[]" "''/upload''" "[]"] P m 1 2 3
  show ?thesis by (simp add: dict_of_zip_def)
qed

lemma upload_request_route:
  "getRoute (single_route_router (upload_route m)) (req_method (upload_request h))
     (req_path (upload_request h)) = Some (upload_route m, [])"
  using getRoute_upload[of m] by (simp add: upload_request_def sample_request_def)

lemma upload_max: "map_of (route_options (upload_route m)) ''max_content_length'' = Some m"
  by (simp add: upload_route_def sample_route_def)

lemma upload_no_header: "\<not> hdr_contains (req_headers (upload_request [])) ''Content-Length''"
  by (simp add: upload_request_def sample_request_def)

lemma upload_header:
  "hdr_getitem (req_headers (upload_request [(''Content-Length'', [v])])) ''Content-Length'' = Inr [v]"
  by (simp add: upload_request_def sample_request_def)

lemma upload_handler:
  "(case run_callback (upload_route m) (upload_request h\<lparr>matches := []\<rparr>) of
      Inl e \<Rightarrow> Inl e | Inr res \<Rightarrow> finish_response res)
   = Inr (Response_init Response_cls (Some (Text ''ok'')) 200 None False)"
  by (simp add: run_callback_def upload_route_def sample_route_def ok_handler_def)

lemma py_int_samples:
  "py_int (HBytes ''20'') = Inr 20" "py_int (HBytes ''abc'') = Inl ValueError"
  "py_int (HBytes ''-5'') = Inr (- 5)"
  by code_simp+

lemma strip_unspaced:
  assumes "s \<noteq> []" and "\<not> is_space (hd s)" and "\<not> is_space (last s)"
  shows "strip s = s"
proof -
  from assms(1,2) have 1: "dropWhile is_space s = s" by (cases s) auto
  from assms(1,3) have 2: "dropWhile is_space (rev s) = rev s"
    by (cases "rev s") (auto simp: last_rev[symmetric] simp del: last_rev)
  show ?thesis by (simp add: strip_def 1 2)
qed

lemma digit_not_space: "is_digit c \<Longrightarrow> \<not> is_space c \<and> c \<noteq> CHR ''-'' \<and> c \<noteq> CHR ''+''"
  by (auto simp: is_digit_def is_space_def)

text \<open>\<^verbatim>\<open>int\<close> rejects a string of more than 4300 digits, whatever number it spells.\<close>

lemma py_int_over_limit:
  assumes "list_all is_digit s" and "int_max_str_digits < length s"
  shows "py_int (HBytes s) = Inl ValueError"
proof -
  from assms(2) obtain c cs where s: "s = c # cs" by (cases s) auto
  with assms(1) have c: "is_digit c" and l: "is_digit (last s)" by (auto simp: list_all_iff)
  from strip_unspaced[of s] s c l digit_not_space have st: "strip (c # cs) = c # cs" by auto
  from assms(1) s have f: "filter is_digit cs = cs" by (simp add: list_all_iff)
  from assms(2) s have n: "int_max_str_digits < Suc (length cs)" by simp
  from digit_not_space[OF c] have cne: "c \<noteq> CHR ''-''" "c \<noteq> CHR ''+''" by simp_all
  show ?thesis unfolding s py_int_def
    by (simp add: st cne c f n Let_def split: option.splits)
qed

lemma py_int_long_zero: "py_int (HBytes (replicate 4300 CHR ''0'' @ ''20'')) = Inl ValueError"
  by (rule py_int_over_limit) (simp_all add: list_all_iff is_digit_def int_max_str_digits_def)

text \<open>
  A route may declare any integer as its maximum. With the maximum \<^verbatim>\<open>-1\<close>, a request without
  a Content-Length header is answered 413, not 411: the length stays zero, zero exceeds the
  maximum, and the 413 response replaces the 411 response.
\<close>

theorem negative_maximum_gives_413:
  "map_sum id status_code
     (request_response (single_route_router (upload_route (- 1))) (upload_request []))
   = Inr 413"
  using upload_request_route[of "- 1" "[]"] upload_max[of "- 1"] upload_no_header
  by (simp add: request_response_def check_content_length_def JsonResponse_def Response_init_def)

text \<open>
  Claim C5, for a maximum that is not negative. For a request matched to a route whose
  options hold such a \<^verbatim>\<open>max_content_length\<close>: without a Content-Length header the status is
  411; with a first header value that \<^verbatim>\<open>int\<close> reads as a number above the maximum the status
  is 413; with a first header value that \<^verbatim>\<open>int\<close> rejects or reads as a negative number the
  request goes to the handler, and the result is what the handler step gives. What \<^verbatim>\<open>int\<close>
  rejects includes a string of more than 4300 digits (\<open>py_int_over_limit\<close>): a
  Content-Length of 4300 zeros followed by \<^verbatim>\<open>20\<close> goes to the handler.
\<close>

theorem payload_validation:
  assumes "getRoute router (req_method request) (req_path request) = Some (endpt, caps)"
    and "map_of (route_options endpt) ''max_content_length'' = Some max_len"
    and "0 \<le> max_len"
  shows "(\<not> hdr_contains (req_headers request) ''Content-Length'' \<longrightarrow>
            map_sum id status_code (request_response router request) = Inr 411)
       \<and> (\<forall>v vs n. hdr_getitem (req_headers request) ''Content-Length'' = Inr (v # vs)
              \<and> py_int v = Inr n \<and> max_len < n \<longrightarrow>
            map_sum id status_code (request_response router request) = Inr 413)
       \<and> (\<forall>v vs. hdr_getitem (req_headers request) ''Content-Length'' = Inr (v # vs)
              \<and> ((\<exists>e. py_int v = Inl e) \<or> (\<exists>n. py_int v = Inr n \<and> n < 0)) \<longrightarrow>
            request_response router request =
              (case run_callback endpt (request\<lparr>matches := caps\<rparr>) of
                 Inl e \<Rightarrow> Inl e
               | Inr res \<Rightarrow> finish_response res))"
proof (intro conjI allI impI)
  assume "\<not> hdr_contains (req_headers request) ''Content-Length''"
  then show "map_sum id status_code (request_response router request) = Inr 411"
    using assms
    by (simp add: request_response_def check_content_length_def JsonResponse_def Response_init_def)
next
  fix v vs n
  assume h: "hdr_getitem (req_headers request) ''Content-Length'' = Inr (v # vs)
              \<and> py_int v = Inr n \<and> max_len < n"
  then have "hdr_contains (req_headers request) ''Content-Length''"
    by (blast intro: hdr_getitem_contains)
  then show "map_sum id status_code (request_response router request) = Inr 413"
    using assms h
    by (simp add: request_response_def check_content_length_def JsonResponse_def Response_init_def)
next
  fix v vs
  assume h: "hdr_getitem (req_headers request) ''Content-Length'' = Inr (v # vs)
              \<and> ((\<exists>e. py_int v = Inl e) \<or> (\<exists>n. py_int v = Inr n \<and> n < 0))"
  then have "hdr_contains (req_headers request) ''Content-Length''"
    by (blast intro: hdr_getitem_contains)
  then have "check_content_length (request\<lparr>matches := caps\<rparr>) max_len = None"
    using assms(3) h by (auto simp: check_content_length_def)
  then show "request_response router request =
              (case run_callback endpt (request\<lparr>matches := caps\<rparr>) of
                 Inl e \<Rightarrow> Inl e
               | Inr res \<Rightarrow> finish_response res)"
    using assms by (simp add: request_response_def)
qed

theorem payload_validation_witness:
  "map_sum id status_code (request_response upload_router (upload_request [])) = Inr 411
   \<and> map_sum id status_code
        (request_response upload_router (upload_request [(''Content-Length'', [HBytes ''20''])])) = Inr 413
   \<and> map_sum id status_code
        (request_response upload_router (upload_request [(''Content-Length'', [HBytes ''abc''])])) = Inr 200
   \<and> map_sum id status_code
        (request_response upload_router (upload_request [(''Content-Length'', [HBytes ''-5''])])) = Inr 200
   \<and> map_sum id status_code
        (request_response upload_router
           (upload_request [(''Content-Length'', [HBytes (replicate 4300 CHR ''0'' @ ''20'')])])) = Inr 200"
proof -
  have z: "(0::int) \<le> 10" by simp
  note pv = payload_validation[OF upload_request_route upload_max z, folded upload_router_def]
  have "map_sum id status_code (request_response upload_router (upload_request [])) = Inr 411"
    using pv[of "[]"] upload_no_header by blast
  moreover have "map_sum id status_code
        (request_response upload_router (upload_request [(''Content-Length'', [HBytes ''20''])])) = Inr 413"
  proof -
    have "hdr_getitem (req_headers (upload_request [(''Content-Length'', [HBytes ''20''])])) ''Content-Length''
            = Inr (HBytes ''20'' # []) \<and> py_int (HBytes ''20'') = Inr 20 \<and> (10::int) < 20"
      by (simp add: upload_header py_int_samples)
    with pv[of "[(''Content-Length'', [HBytes ''20''])]"] show ?thesis by blast
  qed
  moreover have "map_sum id status_code
        (request_response upload_router (upload_request [(''Content-Length'', [HBytes ''abc''])])) = Inr 200"
  proof -
    have "hdr_getitem (req_headers (upload_request [(''Content-Length'', [HBytes ''abc''])])) ''Content-Length''
            = Inr (HBytes ''abc'' # [])
          \<and> ((\<exists>e. py_int (HBytes ''abc'') = Inl e) \<or> (\<exists>n. py_int (HBytes ''abc'') = Inr n \<and> n < 0))"
      by (simp add: upload_header py_int_samples)
    with pv[of "[(''Content-Length'', [HBytes ''abc''])]"]
    have "request_response upload_router (upload_request [(''Content-Length'', [HBytes ''abc''])])
            = (case run_callback (upload_route 10)
                      (upload_request [(''Content-Length'', [HBytes ''abc''])]\<lparr>matches := []\<rparr>) of
                 Inl e \<Rightarrow> Inl e | Inr res \<Rightarrow> finish_response res)"
      by blast
    then show ?thesis by (simp only: upload_handler) (simp add: Response_init_def)
  qed
  moreover have "map_sum id status_code
        (request_response upload_router (upload_request [(''Content-Length'', [HBytes ''-5''])])) = Inr 200"
  proof -
    have "hdr_getitem (req_headers (upload_request [(''Content-Length'', [HBytes ''-5''])])) ''Content-Length''
            = Inr (HBytes ''-5'' # [])
          \<and> ((\<exists>e. py_int (HBytes ''-5'') = Inl e) \<or> (\<exists>n. py_int (HBytes ''-5'') = Inr n \<and> n < 0))"
      by (simp add: upload_header py_int_samples)
    with pv[of "[(''Content-Length'', [HBytes ''-5''])]"]
    have "request_response upload_router (upload_request [(''Content-Length'', [HBytes ''-5''])])
            = (case run_callback (upload_route 10)
                      (upload_request [(''Content-Length'', [HBytes ''-5''])]\<lparr>matches := []\<rparr>) of
                 Inl e \<Rightarrow> Inl e | Inr res \<Rightarrow> finish_response res)"
      by blast
    then show ?thesis by (simp only: upload_handler) (simp add: Response_init_def)
  qed
  moreover have "map_sum id status_code
        (request_response upload_router
           (upload_request [(''Content-Length'', [HBytes (replicate 4300 CHR ''0'' @ ''20'')])])) = Inr 200"
  proof -
    define long where "long = HBytes (replicate 4300 CHR ''0'' @ ''20'')"
    have "hdr_getitem (req_headers (upload_request [(''Content-Length'', [long])])) ''Content-Length''
            = Inr (long # [])
          \<and> ((\<exists>e. py_int long = Inl e) \<or> (\<exists>n. py_int long = Inr n \<and> n < 0))"
      unfolding long_def by (simp only: upload_header py_int_long_zero) simp
    with pv[of "[(''Content-Length'', [long])]"]
    have "request_response upload_router (upload_request [(''Content-Length'', [long])])
            = (case run_callback (upload_route 10)
                      (upload_request [(''Content-Length'', [long])]\<lparr>matches := []\<rparr>) of
                 Inl e \<Rightarrow> Inl e | Inr res \<Rightarrow> finish_response res)"
      by blast
    then show ?thesis unfolding long_def[symmetric] by (simp only: upload_handler) (simp add: Response_init_def)
  qed
  ultimately show ?thesis by (intro conjI)
qed

section \<open>Dispatch\<close>

lemma getRoute_limiter: "getRoute (router\<lparr>limiter := rl\<rparr>) m p = getRoute router m p"
  by (simp add: getRoute_def)

lemma error_response_rendered:
  assumes "list_all json_plain msg"
  shows "\<exists>resp body. get_payload l (JsonResponse (ErrorObject msg) status) = Inr (body, resp)
           \<and> status_code resp = status \<and> resp_class resp = JsonResponse_cls
           \<and> resp_payload resp = ErrorObject msg"
  using assms
  by (simp add: get_payload_def JsonResponse_get_payload_def Response_get_payload_def
      JsonResponse_def Response_init_def json_dumps_def Let_def)

lemma plain_messages:
  "list_all json_plain ''route failed to return a response''"
  "list_all json_plain ''Too Many Requests''"
  by code_simp+

lemma registerRoutes_limiter: "limiter (snd (registerRoutes r rs)) = limiter r"
  by (induction r rs rule: registerRoutes.induct) (auto split: sum.splits option.splits)

lemma run_compiled:
  "map_sum id (\<lambda>(P, toks). (toks, re_match P ''/run'')) (patternToRegex ''/run'') = Inr ([], Some [])"
  by code_simp

lemma getRoute_handler_route:
  "getRoute (single_route_router (handler_route f)) (req_method run_request) (req_path run_request)
     = Some (handler_route f, [])"
proof -
  from run_compiled obtain P where P: "patternToRegex ''/run'' = Inr (P, [])"
    and m: "re_match P ''/run'' = Some []"
    by (cases "patternToRegex ''/run''") auto
  have 1: "route_pattern (handler_route f) = ''/run''" and 2: "route_method (handler_route f) = ''GET''"
    by (simp_all add: handler_route_def sample_route_def)
  have 3: "route_table fresh_router ''GET'' = Some []" by (simp add: fresh_router_def)
  from getRoute_single[of "handler_route f" P "[]" "''/run''" "[]"] P m 1 2 3
  show ?thesis by (simp add: dict_of_zip_def run_request_def sample_request_def)
qed

lemma handler_route_no_maximum:
  "(case map_of (route_options (handler_route f)) ''max_content_length'' of
      None \<Rightarrow> None
    | Some max_len \<Rightarrow> check_content_length (run_request\<lparr>matches := []\<rparr>) max_len) = None"
  by (simp add: handler_route_def sample_route_def)

lemma first_insert_passes:
  "map_sum id fst (insert_key clock_2023 ''127.0.0.1'' (limiter fresh_router)) = Inr False"
  by code_simp

lemma first_insert_blocked:
  "map_sum id fst (insert_key clock_2023 ''127.0.0.1'' (limiter strict_router)) = Inr True"
  by code_simp

lemma run_request_address: "fst (client_address run_request) = ''127.0.0.1''"
  by (simp add: run_request_def sample_request_def)

lemma handler_router_insert:
  "\<exists>rl. insert_key clock_2023 (fst (client_address run_request))
           (limiter (single_route_router (handler_route f))) = Inr (False, rl)"
proof -
  have "limiter (single_route_router (handler_route f)) = limiter fresh_router"
    unfolding single_route_router_def by (rule registerRoutes_limiter)
  moreover from first_insert_passes
  have "\<exists>rl. insert_key clock_2023 ''127.0.0.1'' (limiter fresh_router) = Inr (False, rl)"
    by (cases "insert_key clock_2023 ''127.0.0.1'' (limiter fresh_router)") auto
  ultimately show ?thesis by (simp only: run_request_address)
qed

text \<open>
  \<^verbatim>\<open>except Exception\<close> catches the classes that derive from \<^verbatim>\<open>Exception\<close>. A handler that
  raises \<^verbatim>\<open>SystemExit\<close> (it calls \<^verbatim>\<open>sys.exit()\<close>) is not caught: the exception leaves
  \<^verbatim>\<open>dispatch\<close>.
\<close>

theorem system_exit_propagates:
  "dispatch sample_libs clock_2023 (single_route_router (handler_route exit_handler)) run_request
     = Inl (SystemExiting ''SystemExit'')"
proof -
  from handler_router_insert[of exit_handler] obtain rl where
    "insert_key clock_2023 (fst (client_address run_request))
       (limiter (single_route_router (handler_route exit_handler))) = Inr (False, rl)" ..
  then show ?thesis
    using getRoute_handler_route[of exit_handler] handler_route_no_maximum[of exit_handler]
    by (simp add: dispatch_def request_response_def getRoute_limiter run_callback_def)
       (simp add: handler_route_def sample_route_def exit_handler_def)
qed

text \<open>
  Claim C6, for the exceptions that derive from \<^verbatim>\<open>Exception\<close>. When the rate check passes, a
  route matches and the payload check raises no objection, the handler is called, and then:
  an exception of class \<^verbatim>\<open>Exception\<close> raised by the handler does not leave \<^verbatim>\<open>dispatch\<close>, which
  returns the JSON error response with status 500; a handler that returns None gives the same
  response; and a handler that returns a value that is no \<^verbatim>\<open>Response\<close> makes \<^verbatim>\<open>dispatch\<close>
  raise TypeError.
\<close>

theorem handler_failures:
  assumes "insert_key ms (fst (client_address request)) (limiter router) = Inr (False, rl)"
    and "getRoute router (req_method request) (req_path request) = Some (endpt, caps)"
    and "(case map_of (route_options endpt) ''max_content_length'' of
            None \<Rightarrow> None
          | Some max_len \<Rightarrow> check_content_length (request\<lparr>matches := caps\<rparr>) max_len) = None"
  shows "(\<forall>e. callback endpt (request\<lparr>matches := caps\<rparr>) = Inl e \<and> is_Exception e \<longrightarrow>
            (\<exists>resp body. dispatch l ms router request = Inr ((resp, body), router\<lparr>limiter := rl\<rparr>)
               \<and> status_code resp = 500 \<and> resp_class resp = JsonResponse_cls
               \<and> resp_payload resp = ErrorObject ''route failed to return a response''))
       \<and> (callback endpt (request\<lparr>matches := caps\<rparr>) = Inr ReturnsNone \<longrightarrow>
            (\<exists>resp body. dispatch l ms router request = Inr ((resp, body), router\<lparr>limiter := rl\<rparr>)
               \<and> status_code resp = 500 \<and> resp_class resp = JsonResponse_cls
               \<and> resp_payload resp = ErrorObject ''route failed to return a response''))
       \<and> (\<forall>t. callback endpt (request\<lparr>matches := caps\<rparr>) = Inr (ReturnsOther t) \<longrightarrow>
            dispatch l ms router request = Inl TypeError)"
proof -
  let ?msg = "''route failed to return a response''"
  from error_response_rendered[OF plain_messages(1), of l 500]
  obtain resp body where rb: "get_payload l (JsonResponse (ErrorObject ?msg) 500) = Inr (body, resp)"
    and props: "status_code resp = 500" "resp_class resp = JsonResponse_cls"
      "resp_payload resp = ErrorObject ?msg"
    by blast
  have none: "run_callback endpt (request\<lparr>matches := caps\<rparr>) = Inr ReturnsNone \<Longrightarrow>
      dispatch l ms router request = Inr ((resp, body), router\<lparr>limiter := rl\<rparr>)"
    using assms rb by (simp add: dispatch_def request_response_def getRoute_limiter)
  have other: "run_callback endpt (request\<lparr>matches := caps\<rparr>) = Inr (ReturnsOther t) \<Longrightarrow>
      dispatch l ms router request = Inl TypeError" for t
    using assms by (simp add: dispatch_def request_response_def getRoute_limiter)
  show ?thesis
  proof (intro conjI allI impI)
    fix e
    assume "callback endpt (request\<lparr>matches := caps\<rparr>) = Inl e \<and> is_Exception e"
    then have "run_callback endpt (request\<lparr>matches := caps\<rparr>) = Inr ReturnsNone"
      by (simp add: run_callback_def)
    from none[OF this] props
    show "\<exists>resp body. dispatch l ms router request = Inr ((resp, body), router\<lparr>limiter := rl\<rparr>)
               \<and> status_code resp = 500 \<and> resp_class resp = JsonResponse_cls
               \<and> resp_payload resp = ErrorObject ?msg"
      by blast
  next
    assume "callback endpt (request\<lparr>matches := caps\<rparr>) = Inr ReturnsNone"
    then have "run_callback endpt (request\<lparr>matches := caps\<rparr>) = Inr ReturnsNone"
      by (simp add: run_callback_def)
    from none[OF this] props
    show "\<exists>resp body. dispatch l ms router request = Inr ((resp, body), router\<lparr>limiter := rl\<rparr>)
               \<and> status_code resp = 500 \<and> resp_class resp = JsonResponse_cls
               \<and> resp_payload resp = ErrorObject ?msg"
      by blast
  next
    fix t
    assume "callback endpt (request\<lparr>matches := caps\<rparr>) = Inr (ReturnsOther t)"
    then have "run_callback endpt (request\<lparr>matches := caps\<rparr>) = Inr (ReturnsOther t)"
      by (simp add: run_callback_def)
    from other[OF this] show "dispatch l ms router request = Inl TypeError" .
  qed
qed

theorem handler_failures_witness:
  "map_sum id (status_code \<circ> fst \<circ> fst)
     (dispatch sample_libs clock_2023 (single_route_router (handler_route failing_handler)) run_request)
     = Inr 500
   \<and> map_sum id (status_code \<circ> fst \<circ> fst)
     (dispatch sample_libs clock_2023 (single_route_router (handler_route no_handler)) run_request)
     = Inr 500
   \<and> dispatch sample_libs clock_2023 (single_route_router (handler_route bad_handler)) run_request
     = Inl TypeError"
proof -
  have a: "callback (handler_route failing_handler) (run_request\<lparr>matches := []\<rparr>)
             = Inl (OtherException ''RuntimeError'') \<and> is_Exception (OtherException ''RuntimeError'')"
    by (simp add: handler_route_def sample_route_def failing_handler_def)
  have b: "callback (handler_route no_handler) (run_request\<lparr>matches := []\<rparr>) = Inr ReturnsNone"
    by (simp add: handler_route_def sample_route_def no_handler_def)
  have c: "callback (handler_route bad_handler) (run_request\<lparr>matches := []\<rparr>) = Inr (ReturnsOther ''str'')"
    by (simp add: handler_route_def sample_route_def bad_handler_def)
  from handler_router_insert[of failing_handler] obtain rl1 where
    i1: "insert_key clock_2023 (fst (client_address run_request))
       (limiter (single_route_router (handler_route failing_handler))) = Inr (False, rl1)" ..
  from handler_router_insert[of no_handler] obtain rl2 where
    i2: "insert_key clock_2023 (fst (client_address run_request))
       (limiter (single_route_router (handler_route no_handler))) = Inr (False, rl2)" ..
  from handler_router_insert[of bad_handler] obtain rl3 where
    i3: "insert_key clock_2023 (fst (client_address run_request))
       (limiter (single_route_router (handler_route bad_handler))) = Inr (False, rl3)" ..
  from handler_failures[OF i1 getRoute_handler_route handler_route_no_maximum, of sample_libs] a
  have "map_sum id (status_code \<circ> fst \<circ> fst)
     (dispatch sample_libs clock_2023 (single_route_router (handler_route failing_handler)) run_request)
     = Inr 500"
    by fastforce
  moreover
  from handler_failures[OF i2 getRoute_handler_route handler_route_no_maximum, of sample_libs] b
  have "map_sum id (status_code \<circ> fst \<circ> fst)
     (dispatch sample_libs clock_2023 (single_route_router (handler_route no_handler)) run_request)
     = Inr 500"
    by fastforce
  moreover
  from handler_failures[OF i3 getRoute_handler_route handler_route_no_maximum, of sample_libs] c
  have "dispatch sample_libs clock_2023 (single_route_router (handler_route bad_handler)) run_request
     = Inl TypeError"
    by blast
  ultimately show ?thesis by (intro conjI)
qed

text \<open>
  Claim C8. When the limiter answers "blocked" for the client address, \<^verbatim>\<open>dispatch\<close> returns
  the JSON error response with status 429, and returns the same response whatever the route
  table and the route list hold: no route is looked up.
\<close>

theorem blocked_request_gets_429:
  assumes "insert_key ms (fst (client_address request)) (limiter router) = Inr (True, rl)"
  shows "\<exists>resp body.
           (\<forall>table rs. dispatch l ms (router\<lparr>route_table := table, routes := rs\<rparr>) request
                = Inr ((resp, body), router\<lparr>route_table := table, routes := rs, limiter := rl\<rparr>))
           \<and> status_code resp = 429 \<and> resp_class resp = JsonResponse_cls
           \<and> resp_payload resp = ErrorObject ''Too Many Requests''"
proof -
  from error_response_rendered[OF plain_messages(2), of l 429]
  obtain resp body where rb: "get_payload l (JsonResponse (ErrorObject ''Too Many Requests'') 429) = Inr (body, resp)"
    and props: "status_code resp = 429" "resp_class resp = JsonResponse_cls"
      "resp_payload resp = ErrorObject ''Too Many Requests''"
    by blast
  have "dispatch l ms (router\<lparr>route_table := table, routes := rs\<rparr>) request
          = Inr ((resp, body), router\<lparr>route_table := table, routes := rs, limiter := rl\<rparr>)" for table rs
    using assms rb by (simp add: dispatch_def)
  with props show ?thesis by blast
qed

theorem blocked_request_gets_429_witness:
  "map_sum id (status_code \<circ> fst \<circ> fst) (dispatch sample_libs clock_2023 strict_router run_request)
     = Inr 429
   \<and> map_sum id (status_code \<circ> fst \<circ> fst)
       (dispatch sample_libs clock_2023
          (strict_router\<lparr>route_table := Map.empty, routes := []\<rparr>) run_request)
     = Inr 429"
proof -
  from first_insert_blocked obtain rl where
    i: "insert_key clock_2023 (fst (client_address run_request)) (limiter strict_router) = Inr (True, rl)"
    by (cases "insert_key clock_2023 ''127.0.0.1'' (limiter strict_router)")
       (auto simp: run_request_address)
  from blocked_request_gets_429[OF i, of sample_libs] obtain resp body where
    d: "\<And>table rs. dispatch sample_libs clock_2023 (strict_router\<lparr>route_table := table, routes := rs\<rparr>)
           run_request
          = Inr ((resp, body), strict_router\<lparr>route_table := table, routes := rs, limiter := rl\<rparr>)"
    and st: "status_code resp = 429"
    by blast
  have "strict_router\<lparr>route_table := route_table strict_router, routes := routes strict_router\<rparr>
          = strict_router" by simp
  with d[where table = "route_table strict_router" and rs = "routes strict_router"]
    d[where table = Map.empty and rs = "[]"] st
  show ?thesis by simp
qed

section \<open>Runs of the matcher\<close>

text \<open>
  A run of an expression without \<^verbatim>\<open>$\<close> stays a run when text is appended to the input: it
  reads the same text, sets the same groups and leaves the appended text unread.
\<close>

lemma repeat_set:
  "set (repeat k lo (pre, rest, gs)) =
     {(pre @ take n rest, drop n rest, gs) | n. lo \<le> n \<and> n \<le> length (takeWhile (in_cls k) rest)}"
  by (auto simp: repeat_def)

lemma takeWhile_append_length:
  "length (takeWhile P xs) \<le> length (takeWhile P (xs @ ys))"
  by (induction xs) auto

lemma repeat_extend:
  assumes "(pre', rest', gs') \<in> set (repeat k lo (pre, rest, gs))"
  shows "(pre', rest' @ x, gs') \<in> set (repeat k lo (pre, rest @ x, gs))"
proof -
  from assms obtain n where n: "lo \<le> n" "n \<le> length (takeWhile (in_cls k) rest)"
    and eq: "pre' = pre @ take n rest" "rest' = drop n rest" "gs' = gs"
    unfolding repeat_set by blast
  have "n \<le> length rest" using n(2) length_takeWhile_le[of "in_cls k" rest] by linarith
  moreover have "n \<le> length (takeWhile (in_cls k) (rest @ x))"
    using n(2) takeWhile_append_length[of "in_cls k" rest x] by linarith
  ultimately show ?thesis unfolding repeat_set using n(1) eq by (auto intro!: exI[of _ n])
qed

lemma run_extend:
  "eol_free r \<Longrightarrow> (pre', rest', gs') \<in> set (run r (pre, rest, gs))
     \<Longrightarrow> (pre', rest' @ x, gs') \<in> set (run r (pre, rest @ x, gs))"
proof (induction r arbitrary: pre rest gs pre' rest' gs')
  case (Chr c)
  then show ?case by (cases rest) (auto split: if_splits)
next
  case (One k)
  then show ?case by (cases rest) (auto split: if_splits)
next
  case (Star k)
  then show ?case by (simp add: repeat_extend)
next
  case (Plus k)
  then show ?case by (simp add: repeat_extend)
next
  case (Opt r)
  then show ?case by auto
next
  case (Alt a b)
  then show ?case by auto
next
  case (Seq a b)
  from Seq.prems obtain st where st: "st \<in> set (run a (pre, rest, gs))"
    and fin: "(pre', rest', gs') \<in> set (run b st)" by auto
  obtain p1 r1 g1 where [simp]: "st = (p1, r1, g1)" by (cases st)
  from Seq.IH(1)[of p1 r1 g1 pre rest gs] st Seq.prems(1)
  have "(p1, r1 @ x, g1) \<in> set (run a (pre, rest @ x, gs))" by simp
  moreover from Seq.IH(2)[of pre' rest' gs' p1 r1 g1] fin Seq.prems(1)
  have "(pre', rest' @ x, gs') \<in> set (run b (p1, r1 @ x, g1))" by simp
  ultimately show ?case by auto
next
  case (Group i r)
  from Group.prems obtain p1 r1 g1 where st: "(p1, r1, g1) \<in> set (run r (pre, rest, gs))"
    and eq: "pre' = p1" "rest' = r1" "gs' = g1[i := Some (drop (length pre) p1)]" by auto
  from Group.IH[OF _ st] Group.prems(1) have "(p1, r1 @ x, g1) \<in> set (run r (pre, rest @ x, gs))"
    by simp
  then show ?case using eq by force
next
  case Bol
  then show ?case by (auto split: if_splits)
next
  case Eol
  then show ?case by simp
qed

lemma run_seq_extend:
  "list_all eol_free rs \<Longrightarrow> (pre', rest', gs') \<in> set (run_seq rs (pre, rest, gs))
     \<Longrightarrow> (pre', rest' @ x, gs') \<in> set (run_seq rs (pre, rest @ x, gs))"
proof (induction rs arbitrary: pre rest gs)
  case Nil
  then show ?case by simp
next
  case (Cons r rs)
  from Cons.prems obtain st where st: "st \<in> set (run r (pre, rest, gs))"
    and fin: "(pre', rest', gs') \<in> set (run_seq rs st)" by auto
  obtain p1 r1 g1 where [simp]: "st = (p1, r1, g1)" by (cases st)
  from run_extend[of r p1 r1 g1 pre rest gs x] st Cons.prems(1)
  have "(p1, r1 @ x, g1) \<in> set (run r (pre, rest @ x, gs))" by simp
  moreover from Cons.IH[of p1 r1 g1] fin Cons.prems(1)
  have "(pre', rest' @ x, gs') \<in> set (run_seq rs (p1, r1 @ x, g1))" by simp
  ultimately show ?case by auto
qed

text \<open>What a run has read and what it leaves make up the input.\<close>

lemma run_text:
  "(pre', rest', gs') \<in> set (run r (pre, rest, gs))
     \<Longrightarrow> \<exists>u. pre' = pre @ u \<and> rest = u @ rest'"
proof (induction r arbitrary: pre rest gs pre' rest' gs')
  case (Chr c)
  then show ?case by (cases rest) (auto split: if_splits)
next
  case (One k)
  then show ?case by (cases rest) (auto split: if_splits)
next
  case (Star k)
  then show ?case by (auto simp: repeat_set)
next
  case (Plus k)
  then show ?case by (auto simp: repeat_set)
next
  case (Seq a b)
  from Seq.prems obtain st where st: "st \<in> set (run a (pre, rest, gs))"
    and fin: "(pre', rest', gs') \<in> set (run b st)" by auto
  obtain p1 r1 g1 where [simp]: "st = (p1, r1, g1)" by (cases st)
  from Seq.IH(1)[of p1 r1 g1 pre rest gs] st
  obtain u where u: "p1 = pre @ u" "rest = u @ r1" by auto
  from Seq.IH(2)[of pre' rest' gs' p1 r1 g1] fin
  obtain v where v: "pre' = p1 @ v" "r1 = v @ rest'" by auto
  from u v show ?case by (intro exI[of _ "u @ v"]) simp
qed (auto split: if_splits)

lemma run_seq_text:
  "(pre', rest', gs') \<in> set (run_seq rs (pre, rest, gs))
     \<Longrightarrow> \<exists>u. pre' = pre @ u \<and> rest = u @ rest'"
proof (induction rs arbitrary: pre rest gs)
  case Nil
  then show ?case by simp
next
  case (Cons r rs)
  from Cons.prems obtain st where st: "st \<in> set (run r (pre, rest, gs))"
    and fin: "(pre', rest', gs') \<in> set (run_seq rs st)" by auto
  obtain p1 r1 g1 where [simp]: "st = (p1, r1, g1)" by (cases st)
  from run_text[of p1 r1 g1 r pre rest gs] st
  obtain u where u: "p1 = pre @ u" "rest = u @ r1" by auto
  from Cons.IH[of p1 r1 g1] fin
  obtain v where v: "pre' = p1 @ v" "r1 = v @ rest'" by auto
  from u v show ?case by (intro exI[of _ "u @ v"]) simp
qed

lemma concat_map_concat:
  "concat (map f (concat xss)) = concat (map (\<lambda>xs. concat (map f xs)) xss)"
  by (induction xss) auto

lemma run_seq_append: "run_seq (as @ bs) st = concat (map (run_seq bs) (run_seq as st))"
proof (induction as arbitrary: st)
  case Nil
  then show ?case by simp
next
  case (Cons a as)
  have "run_seq (as @ bs) = (\<lambda>s. concat (map (run_seq bs) (run_seq as s)))"
    by (rule ext) (rule Cons.IH)
  then have "run_seq ((a # as) @ bs) st = concat (map (\<lambda>s. concat (map (run_seq bs) (run_seq as s))) (run a st))"
    by simp
  also have "\<dots> = concat (map (run_seq bs) (concat (map (run_seq as) (run a st))))"
    by (simp add: concat_map_concat[of "run_seq bs" "map (run_seq as) (run a st)"] comp_def)
  finally show ?case by simp
qed

lemma run_seq_append_set:
  "set (run_seq (as @ bs) st) = (\<Union>st' \<in> set (run_seq as st). set (run_seq bs st'))"
  by (simp add: run_seq_append)

lemma run_seq_literal:
  "run_seq (map Chr w) (pre, rest, gs) =
     (if take (length w) rest = w then [(pre @ w, drop (length w) rest, gs)] else [])"
proof (induction w arbitrary: pre rest)
  case Nil
  then show ?case by simp
next
  case (Cons c w)
  then show ?case by (cases rest) auto
qed

section \<open>The shape of a compiled pattern\<close>

lemma plain_lit_atoms: "\<not> list_ex re_meta part \<Longrightarrow> map lit_atom part = map Chr part"
  by (induction part) (auto simp: lit_atom_def re_meta_def)

lemma literal_eol_free: "list_all eol_free (map Chr part)"
  by (induction part) auto

lemma compile_parts_eol_free:
  "compile_parts parts tokens re_str rx final = Inr (tokens', re_str', rx')
     \<Longrightarrow> list_all plain_part parts \<Longrightarrow> list_all eol_free rx \<Longrightarrow> list_all eol_free rx'"
proof (induction parts tokens re_str rx final rule: compile_parts.induct)
  case (1 tokens re_str rx final)
  then show ?case by simp
next
  case (2 part parts tokens re_str rx final)
  show ?case
  proof (cases "is_token part")
    case False
    with "2.prems" have "map lit_atom part = map Chr part"
      by (simp add: plain_part_def plain_lit_atoms)
    with False "2.prems" "2.IH"(5) literal_eol_free[of part] show ?thesis
      by (simp add: Let_def)
  next
    case True
    with "2.prems" "2.IH"(1-4) show ?thesis
      by (simp add: Let_def rx_optional_def rx_star_def rx_plus_def rx_plain_def split: if_splits)
  qed
qed

lemma frag_lengths:
  "length frag_optional = 18" "length frag_star = 14" "length frag_plus = 7"
  "length frag_plain = 10" "length re_slash = 2"
  by (simp_all add: frag_optional_def frag_star_def frag_plus_def frag_plain_def re_slash_def)

lemma compile_parts_re_str:
  "compile_parts parts tokens re_str rx final = Inr (tokens', re_str', rx')
     \<Longrightarrow> list_all (\<lambda>part. part \<noteq> []) parts
     \<Longrightarrow> re_str' = re_str \<or> length re_str + 3 \<le> length re_str'"
proof (induction parts tokens re_str rx final rule: compile_parts.induct)
  case (1 tokens re_str rx final)
  then show ?case by simp
next
  case (2 part parts tokens re_str rx final)
  from "2.prems"(2) have ne: "1 \<le> length part" and rest: "list_all (\<lambda>part. part \<noteq> []) parts"
    by (cases part; simp)+
  from "2.prems"(1) obtain tokens2 re_str2 rx2 final2 where
    call: "compile_parts parts tokens2 re_str2 rx2 final2 = Inr (tokens', re_str', rx')"
    and grow: "length re_str + 3 \<le> length re_str2"
    and ih: "re_str' = re_str2 \<or> length re_str2 + 3 \<le> length re_str'"
    using "2.IH" rest ne
    by (auto simp: Let_def frag_lengths split: if_splits)
  from grow ih show ?case by auto
qed

lemma pattern_parts_nonempty: "list_all (\<lambda>part. part \<noteq> []) (pattern_parts pattern)"
  by (simp add: pattern_parts_def list_all_iff)

lemma plain_parts_modelled: "list_all plain_part parts \<Longrightarrow> list_all part_modelled parts"
  by (induction parts) (auto simp: plain_part_def part_modelled_def re_meta_def list_ex_iff)

text \<open>The compiled expression is what the loop has built, then an optional slash and \<^verbatim>\<open>$\<close>.\<close>

lemma patternToRegex_prog:
  assumes "compile_parts (pattern_parts pattern) [] ''^'' [Bol] False = Inr (tokens, re_str, rx)"
    and "list_all plain_part (pattern_parts pattern)"
  shows "patternToRegex pattern =
           Inr (\<lparr>re_source = re_str @ re_slash @ ''?$'', re_prog = rx @ [Opt (Chr CHR ''/''), Eol]\<rparr>, tokens)"
proof -
  from compile_parts_re_str[OF assms(1) pattern_parts_nonempty]
  have ne: "re_str \<noteq> ''^'' @ re_slash" by (auto simp: re_slash_def)
  from assms(2) have "list_all part_modelled (pattern_parts pattern)" by (rule plain_parts_modelled)
  with assms(1) ne show ?thesis
    by (simp add: patternToRegex_def pattern_parts_def[symmetric] Let_def)
qed

lemma patternToRegex_compiled:
  assumes "patternToRegex pattern = Inr (p, tokens)"
  shows "\<exists>re_str rx. compile_parts (pattern_parts pattern) [] ''^'' [Bol] False = Inr (tokens, re_str, rx)
           \<and> re_prog p = rx @ [Opt (Chr CHR ''/''), Eol]"
proof -
  from assms obtain re_str rx where
    c: "compile_parts (pattern_parts pattern) [] ''^'' [Bol] False = Inr (tokens, re_str, rx)"
    by (auto simp: patternToRegex_def pattern_parts_def[symmetric] Let_def
             split: sum.splits prod.splits if_splits)
  from compile_parts_re_str[OF c pattern_parts_nonempty]
  have ne: "re_str \<noteq> ''^'' @ re_slash" by (auto simp: re_slash_def)
  from assms c ne have "re_prog p = rx @ [Opt (Chr CHR ''/''), Eol]"
    by (auto simp: patternToRegex_def pattern_parts_def[symmetric] Let_def split: if_splits)
  with c show ?thesis by blast
qed

text \<open>Every pattern with at most one optional or greedy token and plain literals compiles.\<close>

lemma valid_pattern_compiles:
  assumes "length (filter is_greedy (pattern_parts pattern)) \<le> 1"
    and "list_all plain_part (pattern_parts pattern)"
  shows "\<exists>p tokens. patternToRegex pattern = Inr (p, tokens)"
proof -
  from assms(1) compile_parts_error_iff[of "pattern_parts pattern" "[]" "''^''" "[Bol]" False]
  have "\<not> (\<exists>e. compile_parts (pattern_parts pattern) [] ''^'' [Bol] False = Inl e)" by simp
  then obtain tokens re_str rx where
    "compile_parts (pattern_parts pattern) [] ''^'' [Bol] False = Inr (tokens, re_str, rx)"
    by (cases "compile_parts (pattern_parts pattern) [] ''^'' [Bol] False") auto
  from patternToRegex_prog[OF this assms(2)] show ?thesis by blast
qed

text \<open>Segments without optional or greedy token compile to \<open>front_rx\<close>.\<close>

lemma compile_parts_front:
  "filter is_greedy front = [] \<Longrightarrow>
     \<exists>s. compile_parts (front @ rest) tokens re_str rx final =
          compile_parts rest (tokens @ map tl (filter is_token front)) (re_str @ s)
            (rx @ front_rx (length tokens) front) final"
proof (induction front arbitrary: tokens re_str rx)
  case Nil
  show ?case by (intro exI[of _ "[]"]) simp
next
  case (Cons part front)
  from Cons.prems have ng: "\<not> is_greedy part" and rest: "filter is_greedy front = []"
    by (auto split: if_splits)
  show ?case
  proof (cases "is_token part")
    case True
    with ng have l: "last part \<noteq> CHR ''?''" "last part \<noteq> CHR ''*''" "last part \<noteq> CHR ''+''"
      by (auto simp: is_greedy_def)
    from Cons.IH[OF rest, of "tokens @ [tl part]" "re_str @ frag_plain" "rx @ rx_plain (length tokens)"]
    obtain s where "compile_parts (front @ rest) (tokens @ [tl part]) (re_str @ frag_plain)
                      (rx @ rx_plain (length tokens)) final =
                    compile_parts rest ((tokens @ [tl part]) @ map tl (filter is_token front))
                      ((re_str @ frag_plain) @ s)
                      ((rx @ rx_plain (length tokens)) @ front_rx (length (tokens @ [tl part])) front) final"
      by blast
    with True l show ?thesis by (intro exI[of _ "frag_plain @ s"]) (simp add: Let_def)
  next
    case False
    from Cons.IH[OF rest, of tokens "re_str @ re_slash @ part" "rx @ Chr CHR ''/'' # map lit_atom part"]
    obtain s where "compile_parts (front @ rest) tokens (re_str @ re_slash @ part)
                      (rx @ Chr CHR ''/'' # map lit_atom part) final =
                    compile_parts rest (tokens @ map tl (filter is_token front))
                      ((re_str @ re_slash @ part) @ s)
                      ((rx @ Chr CHR ''/'' # map lit_atom part) @ front_rx (length tokens) front) final"
      by blast
    with False show ?thesis by (intro exI[of _ "re_slash @ part @ s"]) simp
  qed
qed

lemma split_on_no_sep: "part \<in> set (split_on d s) \<Longrightarrow> d \<notin> set part"
proof (induction s arbitrary: part)
  case Nil
  then show ?case by simp
next
  case (Cons c cs)
  show ?case
  proof (cases "c = d")
    case True
    with Cons show ?thesis by auto
  next
    case False
    with Cons show ?thesis by (cases "split_on d cs") auto
  qed
qed

lemma pattern_parts_no_slash: "part \<in> set (pattern_parts pattern) \<Longrightarrow> part \<noteq> [] \<and> CHR ''/'' \<notin> set part"
  by (auto simp: pattern_parts_def dest: split_on_no_sep)

section \<open>The greedy token\<close>

text \<open>The first run of a list of expressions, through the first run of a front part.\<close>

lemma first_append:
  "run_seq as st = s1 # xs \<Longrightarrow> run_seq bs s1 = x # ys \<Longrightarrow> \<exists>zs. run_seq (as @ bs) st = x # zs"
  by (simp add: run_seq_append)

lemma repeat_first:
  assumes "lo \<le> length (takeWhile (in_cls k) rest)"
  shows "\<exists>xs. repeat k lo (pre, rest, gs) =
           (pre @ takeWhile (in_cls k) rest, dropWhile (in_cls k) rest, gs) # xs"
proof -
  let ?n = "length (takeWhile (in_cls k) rest)"
  from assms have "rev [lo ..< Suc ?n] = ?n # rev [lo ..< ?n]" by simp
  moreover have "take ?n rest = takeWhile (in_cls k) rest" by (rule takeWhile_eq_take[symmetric])
  moreover have "drop ?n rest = dropWhile (in_cls k) rest" by (rule dropWhile_eq_drop[symmetric])
  ultimately show ?thesis by (simp add: repeat_def)
qed

lemma takeWhile_value:
  assumes "\<forall>c \<in> set v. P c" and "r = [] \<or> \<not> P (hd r)"
  shows "takeWhile P (v @ r) = v" and "dropWhile P (v @ r) = r"
  using assms by (cases r; simp)+

lemma rx_plain_first:
  assumes "seg_value v" and "r = [] \<or> hd r = CHR ''/''"
  shows "\<exists>xs. run_seq (rx_plain g) (pre, CHR ''/'' # v @ r, gs) =
           (pre @ CHR ''/'' # v, r, gs[g := Some v]) # xs"
proof -
  from assms have tw: "takeWhile (in_cls NotSlash) (v @ r) = v" "dropWhile (in_cls NotSlash) (v @ r) = r"
    by (auto intro!: takeWhile_value simp: seg_value_def)
  from assms(1) have "1 \<le> length (takeWhile (in_cls NotSlash) (v @ r))"
    unfolding tw by (cases v) (auto simp: seg_value_def)
  from repeat_first[OF this, of "pre @ ''/''" gs] obtain xs where
    "repeat NotSlash 1 (pre @ ''/'', v @ r, gs) = (pre @ CHR ''/'' # v, r, gs) # xs"
    unfolding tw by auto
  then show ?thesis by (simp add: rx_plain_def)
qed

lemma fill_head: "fill front vals = [] \<or> hd (fill front vals) = CHR ''/''"
  by (cases front) (auto split: list.splits)

lemma groups_step:
  assumes "g + Suc n \<le> length gs"
  shows "take (Suc g) (gs[g := a]) @ xs @ drop (Suc g + n) (gs[g := a]) =
         take g gs @ a # xs @ drop (g + Suc n) gs"
proof -
  from assms have "g < length gs" by simp
  then have "take (Suc g) (gs[g := a]) = take g gs @ [a]"
    by (simp add: take_Suc_conv_app_nth)
  moreover have "drop (Suc g + n) (gs[g := a]) = drop (g + Suc n) gs" by simp
  ultimately show ?thesis by simp
qed

text \<open>
  The first run of the segments before the \<^verbatim>\<open>*\<close> token over a path made of these segments
  reads all of that path and sets the groups to the values of the tokens.
\<close>

lemma front_rx_first:
  assumes "list_all plain_part front"
    and "length vals = length (filter is_token front)"
    and "list_all seg_value vals"
    and "w = [] \<or> hd w = CHR ''/''"
    and "g + length vals \<le> length gs"
  shows "\<exists>xs. run_seq (front_rx g front) (pre, fill front vals @ w, gs) =
           (pre @ fill front vals, w, take g gs @ map Some vals @ drop (g + length vals) gs) # xs"
  using assms
proof (induction front arbitrary: g vals pre gs)
  case Nil
  then show ?case by simp
next
  case (Cons part front)
  from Cons.prems(1) have plain: "list_all plain_part front" and pp: "plain_part part" by simp_all
  show ?case
  proof (cases "is_token part")
    case True
    with Cons.prems(2) obtain v vs where vals: "vals = v # vs"
      and len: "length vs = length (filter is_token front)" by (cases vals) auto
    from Cons.prems(3) vals have v: "seg_value v" and vs: "list_all seg_value vs" by simp_all
    from Cons.prems(5) vals have bound: "g + Suc (length vs) \<le> length gs" by simp
    define r where "r = fill front vs @ w"
    from fill_head[of front vs] Cons.prems(4) have "r = [] \<or> hd r = CHR ''/''"
      unfolding r_def by (cases "fill front vs") auto
    from rx_plain_first[OF v this, of g pre gs] obtain xs where
      1: "run_seq (rx_plain g) (pre, CHR ''/'' # v @ r, gs) = (pre @ CHR ''/'' # v, r, gs[g := Some v]) # xs"
      by blast
    from bound have "Suc g + length vs \<le> length (gs[g := Some v])" by simp
    from Cons.IH[OF plain len vs Cons.prems(4) this, of "pre @ CHR ''/'' # v"] obtain ys where
      2: "run_seq (front_rx (Suc g) front) (pre @ CHR ''/'' # v, r, gs[g := Some v]) =
            ((pre @ CHR ''/'' # v) @ fill front vs, w,
             take (Suc g) (gs[g := Some v]) @ map Some vs @ drop (Suc g + length vs) (gs[g := Some v])) # ys"
      unfolding r_def by blast
    from first_append[OF 1 2] obtain zs where
      "run_seq (rx_plain g @ front_rx (Suc g) front) (pre, CHR ''/'' # v @ r, gs) =
         ((pre @ CHR ''/'' # v) @ fill front vs, w,
          take (Suc g) (gs[g := Some v]) @ map Some vs @ drop (Suc g + length vs) (gs[g := Some v])) # zs"
      by blast
    with True vals groups_step[OF bound, of "Some v" "map Some vs"] show ?thesis
      by (simp add: r_def)
  next
    case False
    with pp have lit: "map lit_atom part = map Chr part"
      by (simp add: plain_part_def plain_lit_atoms)
    have rx: "front_rx g (part # front) = map Chr (CHR ''/'' # part) @ front_rx g front"
      using False lit by simp
    have fl: "fill (part # front) vals @ w = (CHR ''/'' # part) @ fill front vals @ w"
      using False by simp
    have 1: "run_seq (map Chr (CHR ''/'' # part)) (pre, fill (part # front) vals @ w, gs) =
               (pre @ CHR ''/'' # part, fill front vals @ w, gs) # []"
      unfolding run_seq_literal fl by simp
    from Cons.prems(2) False have len: "length vals = length (filter is_token front)" by simp
    from Cons.IH[OF plain len Cons.prems(3,4,5), of "pre @ CHR ''/'' # part"] obtain ys where
      2: "run_seq (front_rx g front) (pre @ CHR ''/'' # part, fill front vals @ w, gs) =
            ((pre @ CHR ''/'' # part) @ fill front vals, w,
             take g gs @ map Some vals @ drop (g + length vals) gs) # ys"
      by blast
    from first_append[OF 1 2] show ?thesis unfolding rx using False by simp
  qed
qed

lemma star_tail_zero:
  "run_seq (rx_star g @ [Opt (Chr CHR ''/''), Eol]) (pre, [], gs) = [(pre, [], gs)]"
  by (simp add: rx_star_def)

lemma star_tail_rest:
  assumes "CHR 0x0A \<notin> set t"
  shows "\<exists>xs. run_seq (rx_star g @ [Opt (Chr CHR ''/''), Eol]) (pre, CHR ''/'' # t, gs) =
           (pre @ CHR ''/'' # t, [], gs[g := Some t]) # xs"
proof -
  from assms have tw: "takeWhile (in_cls AnyChar) t = t" "dropWhile (in_cls AnyChar) t = []"
    by (auto intro: takeWhile_eq_all_conv[THEN iffD2])
  from repeat_first[of 0 AnyChar t "pre @ ''/''" gs] obtain xs where
    "repeat AnyChar 0 (pre @ ''/'', t, gs) = (pre @ CHR ''/'' # t, [], gs) # xs"
    unfolding tw by auto
  then show ?thesis by (simp add: rx_star_def)
qed

lemma lit_atom_ngroups: "sum_list (map ngroups (map lit_atom part)) = 0"
  by (induction part) (auto simp: lit_atom_def)

lemma front_rx_ngroups: "sum_list (map ngroups (front_rx g front)) = length (filter is_token front)"
  by (induction front arbitrary: g) (auto simp: rx_plain_def lit_atom_ngroups simp del: map_map)

text \<open>
  Three limits of the \<^verbatim>\<open>*\<close> token. The matcher of \<^verbatim>\<open>/files/:rest*\<close>
  accepts \<^verbatim>\<open>/files\<close> with the group of \<^verbatim>\<open>rest\<close> taking no part in the match, so the capture is
  None; the empty string is the capture for \<^verbatim>\<open>/files/\<close>. \<^verbatim>\<open>.\<close> does not read a line feed:
  \<^verbatim>\<open>/files/a\<close>, a line feed and \<^verbatim>\<open>b\<close> is rejected, and for \<^verbatim>\<open>/files/a\<close> followed by a line feed
  the capture is \<^verbatim>\<open>a\<close>, not everything after the slash. And a literal segment is pasted into
  the expression unescaped: the matcher of \<^verbatim>\<open>/a$/:rest*\<close> rejects \<^verbatim>\<open>/a$/x\<close>.
\<close>

theorem star_token_line_feed:
  "map_sum id (\<lambda>(p, tokens). (re_match p ''/files'', re_match p ''/files/'',
                                re_match p (''/files/a'' @ [CHR 0x0A] @ ''b''),
                                re_match p (''/files/a'' @ [CHR 0x0A])))
      (patternToRegex ''/files/:rest*'') = Inr (Some [None], Some [Some ''''], None, Some [Some ''a''])
   \<and> map_sum id (\<lambda>(p, tokens). re_match p ''/a$/x'') (patternToRegex ''/a$/:rest*'') = Inr None"
  by code_simp

text \<open>Route lookup returns the captures under the token name.\<close>

lemma files_route_lookup:
  "map_option (\<lambda>(endpt, caps). (route_name endpt, caps))
         (getRoute (snd (registerRoutes fresh_router [files_route])) ''GET'' ''/files'')
       = Some (''files.get_file'', [(''rest'', None)])
   \<and> map_option (\<lambda>(endpt, caps). (route_name endpt, caps))
         (getRoute (snd (registerRoutes fresh_router [files_route])) ''GET'' ''/files/a/b'')
       = Some (''files.get_file'', [(''rest'', Some ''a/b'')])"
  by code_simp

text \<open>
  Claim C9, for text without line feed and literal segments without regular-expression
  metacharacter. Take a pattern whose last segment is a token that ends in \<^verbatim>\<open>*\<close>, after
  segments \<open>front\<close> that are plain tokens and such literal segments, and take a value for each
  plain token. The pattern compiles, with the token names in order. The compiled matcher
  accepts the path written after \<open>front\<close> with these values, zero trailing segments, and
  captures the values and None for the last token. It accepts that path followed by a slash
  and any text \<open>t\<close> without line feed, slashes allowed, and captures the values and all of \<open>t\<close>
  as one string for the last token.
\<close>

theorem star_token_captures:
  assumes "pattern_parts pattern = front @ [star]"
    and "is_token star" and "last star = CHR ''*''"
    and "filter is_greedy front = []"
    and "list_all plain_part front"
    and "length vals = length (filter is_token front)"
    and "list_all seg_value vals"
    and "CHR 0x0A \<notin> set t"
  shows "\<exists>p. patternToRegex pattern = Inr (p, map tl (filter is_token front) @ [butlast (tl star)])
           \<and> re_match p (fill front vals) = Some (map Some vals @ [None])
           \<and> re_match p (fill front vals @ ''/'' @ t) = Some (map Some vals @ [Some t])"
proof -
  define n where "n = length (filter is_token front)"
  define tail where "tail = rx_star n @ [Opt (Chr CHR ''/''), Eol]"
  define toks where "toks = map tl (filter is_token front) @ [butlast (tl star)]"
  from compile_parts_front[OF assms(4), of "[star]" "[]" "''^''" "[Bol]" False] obtain s where
    "compile_parts (front @ [star]) [] ''^'' [Bol] False =
       compile_parts [star] (map tl (filter is_token front)) (''^'' @ s) ([Bol] @ front_rx 0 front) False"
    by auto
  with assms(2,3) have c: "compile_parts (pattern_parts pattern) [] ''^'' [Bol] False =
       Inr (toks, (''^'' @ s) @ frag_star, ([Bol] @ front_rx 0 front) @ rx_star n)"
    by (simp add: assms(1) Let_def n_def toks_def)
  have "plain_part star" using assms(2) by (simp add: plain_part_def)
  with assms(5) have "list_all plain_part (pattern_parts pattern)" by (simp add: assms(1))
  from patternToRegex_prog[OF c this] obtain p where
    p: "patternToRegex pattern = Inr (p, toks)"
    and prog: "re_prog p = Bol # front_rx 0 front @ tail"
    by (auto simp: tail_def)
  have ng: "sum_list (map ngroups (re_prog p)) = Suc n"
    by (simp add: prog tail_def front_rx_ngroups rx_star_def n_def)
  define g0 where "g0 = replicate (Suc n) (None :: string option)"
  have m: "re_match p x = (case run_seq (front_rx 0 front @ tail) ([], x, g0) of
                             [] \<Rightarrow> None | (pre, rest, gs) # _ \<Rightarrow> Some gs)" for x
    unfolding re_match_def ng unfolding prog g0_def by simp
  have len: "0 + length vals \<le> length g0" by (simp add: g0_def n_def assms(6))
  have "g0 = replicate n None @ [None]"
    unfolding g0_def by (simp add: replicate_append_same)
  then have gs1: "take 0 g0 @ map Some vals @ drop (0 + length vals) g0 = map Some vals @ [None]"
    by (simp add: n_def assms(6))
  have up: "(map Some vals @ [None])[n := Some t] = map Some vals @ [Some t]"
    by (simp add: n_def assms(6)[symmetric] list_update_append)
  from front_rx_first[where w = "[]" and pre = "[]", OF assms(5,6,7) _ len] obtain xs where
    f0: "run_seq (front_rx 0 front) ([], fill front vals, g0) =
           (fill front vals, [], map Some vals @ [None]) # xs"
    unfolding gs1 by auto
  from first_append[OF f0 star_tail_zero[of n "fill front vals" "map Some vals @ [None]", folded tail_def]]
  have zero: "re_match p (fill front vals) = Some (map Some vals @ [None])"
    unfolding m by auto
  from front_rx_first[where w = "CHR ''/'' # t" and pre = "[]", OF assms(5,6,7) _ len] obtain ys where
    f1: "run_seq (front_rx 0 front) ([], fill front vals @ CHR ''/'' # t, g0) =
           (fill front vals, CHR ''/'' # t, map Some vals @ [None]) # ys"
    unfolding gs1 by auto
  from star_tail_rest[OF assms(8), of n "fill front vals" "map Some vals @ [None]", folded tail_def]
  obtain zs where
    t1: "run_seq tail (fill front vals, CHR ''/'' # t, map Some vals @ [None]) =
           (fill front vals @ CHR ''/'' # t, [], map Some vals @ [Some t]) # zs"
    unfolding up by blast
  from first_append[OF f1 t1]
  have more: "re_match p (fill front vals @ ''/'' @ t) = Some (map Some vals @ [Some t])"
    unfolding m by auto
  from p zero more show ?thesis unfolding toks_def by blast
qed

theorem star_token_captures_witness:
  "map_sum id (\<lambda>(p, tokens). (tokens, re_match p ''/files'', re_match p ''/files/a/b''))
      (patternToRegex ''/files/:rest*'') = Inr ([''rest''], Some [None], Some [Some ''a/b''])
   \<and> map_sum id (\<lambda>(p, tokens). (tokens, re_match p ''/user/7/files'', re_match p ''/user/7/files/a/b/''))
      (patternToRegex ''/user/:id/files/:rest*'')
        = Inr ([''id'', ''rest''], Some [Some ''7'', None], Some [Some ''7'', Some ''a/b/''])"
proof -
  have 1: "pattern_parts ''/files/:rest*'' = [''files''] @ ['':rest*'']" by code_simp
  have 2: "is_token '':rest*''" "last '':rest*'' = CHR ''*''" by (simp_all add: is_token_def)
  have 3: "filter is_greedy [''files''] = []" "list_all plain_part [''files'']"
    "length ([] :: string list) = length (filter is_token [''files''])"
    "list_all seg_value []" "CHR 0x0A \<notin> set ''a/b''"
    by (simp_all add: is_greedy_def is_token_def plain_part_def re_meta_def re_special_def)
  from star_token_captures[OF 1 2 3] have a:
    "map_sum id (\<lambda>(p, tokens). (tokens, re_match p ''/files'', re_match p ''/files/a/b''))
      (patternToRegex ''/files/:rest*'') = Inr ([''rest''], Some [None], Some [Some ''a/b''])"
    by (auto simp: is_token_def)
  have 4: "pattern_parts ''/user/:id/files/:rest*'' = [''user'', '':id'', ''files''] @ ['':rest*'']"
    by code_simp
  have 5: "filter is_greedy [''user'', '':id'', ''files''] = []"
    "list_all plain_part [''user'', '':id'', ''files'']"
    "length [''7''] = length (filter is_token [''user'', '':id'', ''files''])"
    "list_all seg_value [''7'']" "CHR 0x0A \<notin> set ''a/b/''"
    by (simp_all add: is_greedy_def is_token_def plain_part_def re_meta_def re_special_def seg_value_def)
  from star_token_captures[OF 4 2 5] have b:
    "map_sum id (\<lambda>(p, tokens). (tokens, re_match p ''/user/7/files'', re_match p ''/user/7/files/a/b/''))
      (patternToRegex ''/user/:id/files/:rest*'')
        = Inr ([''id'', ''rest''], Some [Some ''7'', None], Some [Some ''7'', Some ''a/b/''])"
    by (auto simp: is_token_def)
  from a b show ?thesis by (rule conjI)
qed

section \<open>The trailing slash\<close>

lemma take_in_takeWhile:
  assumes "n \<le> length (takeWhile P xs)" and "x \<in> set (take n xs)"
  shows "P x"
proof -
  have "take n xs = take n (takeWhile P xs @ dropWhile P xs)" by simp
  also have "\<dots> = take n (takeWhile P xs)" using assms(1) by (simp del: takeWhile_dropWhile_id)
  finally have "x \<in> set (takeWhile P xs)" using assms(2) by (auto dest: in_set_takeD)
  then show ?thesis by (rule set_takeWhileD[THEN conjunct2])
qed

lemma rx_plain_end:
  assumes "(p1, r1, g1) \<in> set (run_seq (rx_plain g) (pre, rest, gs))"
  shows "p1 \<noteq> [] \<and> last p1 \<noteq> CHR ''/''"
proof -
  from assms obtain r n where rest: "rest = CHR ''/'' # r" and n: "1 \<le> n" "n \<le> length (takeWhile (in_cls NotSlash) r)"
    and p1: "p1 = (pre @ ''/'') @ take n r"
    by (cases rest) (auto simp: rx_plain_def repeat_set split: if_splits)
  from n have "n \<le> length r" using length_takeWhile_le[of "in_cls NotSlash" r] by linarith
  with n(1) have ne: "take n r \<noteq> []" by auto
  then have "last (take n r) \<in> set (take n r)" by simp
  from take_in_takeWhile[OF n(2) this] have "last (take n r) \<noteq> CHR ''/''" by simp
  with ne p1 show ?thesis by simp
qed

lemma front_rx_end:
  assumes "(pre', rest', gs') \<in> set (run_seq (front_rx g parts) (pre, rest, gs))"
    and "list_all plain_part parts"
    and "\<forall>part\<in>set parts. part \<noteq> [] \<and> CHR ''/'' \<notin> set part"
  shows "(parts = [] \<and> pre' = pre) \<or> (pre' \<noteq> [] \<and> last pre' \<noteq> CHR ''/'')"
  using assms
proof (induction parts arbitrary: g pre rest gs)
  case Nil
  then show ?case by simp
next
  case (Cons part parts)
  from Cons.prems(2,3) have plain: "list_all plain_part parts"
    and ns: "\<forall>part\<in>set parts. part \<noteq> [] \<and> CHR ''/'' \<notin> set part"
    and part: "part \<noteq> []" "CHR ''/'' \<notin> set part" "plain_part part" by auto
  show ?case
  proof (cases "is_token part")
    case True
    with Cons.prems(1) obtain st where st: "st \<in> set (run_seq (rx_plain g) (pre, rest, gs))"
      and fin: "(pre', rest', gs') \<in> set (run_seq (front_rx (Suc g) parts) st)"
      by (auto simp: run_seq_append_set)
    obtain p1 r1 g1 where steq: "st = (p1, r1, g1)" by (cases st)
    from rx_plain_end[OF st[unfolded steq]] have p1: "p1 \<noteq> []" "last p1 \<noteq> CHR ''/''" by simp_all
    from Cons.IH[OF fin[unfolded steq] plain ns] p1 show ?thesis by auto
  next
    case False
    with part(3) have lit: "map lit_atom part = map Chr part"
      by (simp add: plain_part_def plain_lit_atoms)
    have "front_rx g (part # parts) = map Chr (CHR ''/'' # part) @ front_rx g parts"
      using False lit by simp
    with Cons.prems(1) obtain st where st: "st \<in> set (run_seq (map Chr (CHR ''/'' # part)) (pre, rest, gs))"
      and fin: "(pre', rest', gs') \<in> set (run_seq (front_rx g parts) st)"
      by (auto simp only: run_seq_append_set)
    from st have steq: "st = (pre @ CHR ''/'' # part, drop (length (CHR ''/'' # part)) rest, gs)"
      unfolding run_seq_literal by (auto split: if_splits)
    from part(1) have "last part \<in> set part" by (rule last_in_set)
    with part(2) have "last part \<noteq> CHR ''/''" by metis
    with part(1)
    have p1: "pre @ CHR ''/'' # part \<noteq> []" "last (pre @ CHR ''/'' # part) \<noteq> CHR ''/''"
      by auto
    from Cons.IH[OF fin[unfolded steq] plain ns] p1 show ?thesis by auto
  qed
qed

lemma tail_accepts:
  assumes "run_seq [Opt (Chr CHR ''/''), Eol] (pre, rest, gs) \<noteq> []"
  shows "rest = [] \<or> rest = ''/'' \<or> rest = [CHR 0x0A] \<or> rest = [CHR ''/'', CHR 0x0A]"
  using assms by (cases rest) (auto split: if_splits)

lemma re_match_accepts:
  assumes "re_prog p = body @ tail"
  shows "re_match p s \<noteq> None \<longleftrightarrow>
           (\<exists>st \<in> set (run_seq body ([], s, replicate (sum_list (map ngroups (re_prog p))) None)).
              run_seq tail st \<noteq> [])"
proof -
  let ?g0 = "replicate (sum_list (map ngroups (re_prog p))) (None :: string option)"
  have "re_match p s \<noteq> None \<longleftrightarrow> run_seq (body @ tail) ([], s, ?g0) \<noteq> []"
    by (simp add: re_match_def assms[symmetric] split: list.splits)
  also have "\<dots> \<longleftrightarrow> set (run_seq (body @ tail) ([], s, ?g0)) \<noteq> {}" by simp
  also have "\<dots> \<longleftrightarrow> (\<exists>st \<in> set (run_seq body ([], s, ?g0)). set (run_seq tail st) \<noteq> {})"
    unfolding run_seq_append_set by auto
  finally show ?thesis by simp
qed

text \<open>
  Three limits of the trailing slash. \<^verbatim>\<open>$\<close> also holds just before a line feed that
  ends the string: the matcher of \<^verbatim>\<open>/abc\<close> accepts \<^verbatim>\<open>/abc\<close> followed by a line feed, which does
  not end in a slash, and rejects that path with a slash appended. A literal segment is pasted
  into the expression unescaped: the matcher of \<^verbatim>\<open>/a$\<close> accepts \<^verbatim>\<open>/a\<close> and rejects \<^verbatim>\<open>/a/\<close>. And
  with an optional or greedy token more than one trailing slash is accepted: the matcher of
  \<^verbatim>\<open>/files/:rest*\<close> accepts \<^verbatim>\<open>/files/a//\<close>, that of \<^verbatim>\<open>/a/:b?\<close> accepts \<^verbatim>\<open>/a//\<close>.
\<close>

theorem trailing_slash_not_tolerated:
  "map_sum id (\<lambda>(p, tokens). (re_match p (''/abc'' @ [CHR 0x0A]), re_match p (''/abc'' @ [CHR 0x0A] @ ''/'')))
     (patternToRegex ''/abc'') = Inr (Some [], None)
   \<and> map_sum id (\<lambda>(p, tokens). (re_match p ''/a'', re_match p ''/a/'')) (patternToRegex ''/a$'')
       = Inr (Some [], None)
   \<and> map_sum id (\<lambda>(p, tokens). (re_match p ''/files/a'', re_match p ''/files/a//''))
       (patternToRegex ''/files/:rest*'') = Inr (Some [Some ''a''], Some [Some ''a//''])
   \<and> map_sum id (\<lambda>(p, tokens). (re_match p ''/a'', re_match p ''/a//''))
       (patternToRegex ''/a/:b?'') = Inr (Some [None], Some [Some ''''])"
  by code_simp

lemma user_id_accepts_admin:
  "map_sum id (\<lambda>(p, tokens). re_match p ''/user/admin'') (patternToRegex ''/user/:id'')
     = Inr (Some [Some ''admin''])"
  by code_simp

text \<open>
  Claim C10, for a pattern whose literal segments hold no regular-expression metacharacter
  and a path that ends neither in a slash nor in a line feed. If the pattern compiles and the
  compiled matcher accepts the path, it accepts the path with one slash appended; and if the
  pattern has no token that ends in \<^verbatim>\<open>?\<close>, \<^verbatim>\<open>*\<close> or \<^verbatim>\<open>+\<close>, it rejects the path with two slashes
  appended: exactly one trailing slash is tolerated. Every such pattern with at most one
  optional or greedy token compiles (\<open>valid_pattern_compiles\<close>).
\<close>

theorem trailing_slash_tolerated:
  assumes "patternToRegex pattern = Inr (p, tokens)"
    and "list_all plain_part (pattern_parts pattern)"
    and "re_match p path \<noteq> None"
    and "path = [] \<or> (last path \<noteq> CHR ''/'' \<and> last path \<noteq> CHR 0x0A)"
  shows "re_match p (path @ ''/'') \<noteq> None
         \<and> (filter is_greedy (pattern_parts pattern) = [] \<longrightarrow> re_match p (path @ ''//'') = None)"
proof -
  from patternToRegex_compiled[OF assms(1)] obtain re_str body where
    c: "compile_parts (pattern_parts pattern) [] ''^'' [Bol] False = Inr (tokens, re_str, body)"
    and prog: "re_prog p = body @ [Opt (Chr CHR ''/''), Eol]" by blast
  from compile_parts_eol_free[OF c assms(2)] have free: "list_all eol_free body" by simp
  define g0 where "g0 = replicate (sum_list (map ngroups (re_prog p))) (None :: string option)"
  define tail where "tail = [Opt (Chr CHR ''/''), Eol]"
  note acc = re_match_accepts[OF prog, folded g0_def tail_def]
  from assms(3) obtain st where st: "st \<in> set (run_seq body ([], path, g0))"
    and t: "run_seq tail st \<noteq> []" unfolding acc by blast
  obtain pre rest gs where steq: "st = (pre, rest, gs)" by (cases st)
  from tail_accepts[OF t[unfolded steq tail_def]]
  have cases: "rest = [] \<or> rest = ''/'' \<or> rest = [CHR 0x0A] \<or> rest = [CHR ''/'', CHR 0x0A]" .
  from run_seq_text[of pre rest gs body "[]" path g0] st steq
  obtain u where u: "path = u @ rest" by auto
  have "rest = []"
  proof (rule ccontr)
    assume ne: "rest \<noteq> []"
    with u have "path \<noteq> []" and "last path = last rest" by auto
    with cases ne assms(4) show False by auto
  qed
  with st steq have "(pre, [], gs) \<in> set (run_seq body ([], path, g0))" by simp
  from run_seq_extend[OF free this, of "''/''"]
  have 1: "(pre, ''/'', gs) \<in> set (run_seq body ([], path @ ''/'', g0))" by simp
  have 2: "run_seq tail (pre, ''/'', gs) \<noteq> []" by (simp add: tail_def)
  from 1 2 have one: "re_match p (path @ ''/'') \<noteq> None" unfolding acc by blast
  have two: "re_match p (path @ ''//'') = None" if ng: "filter is_greedy (pattern_parts pattern) = []"
  proof (rule ccontr)
    assume "re_match p (path @ ''//'') \<noteq> None"
    then obtain st2 where st2: "st2 \<in> set (run_seq body ([], path @ ''//'', g0))"
      and t2: "run_seq tail st2 \<noteq> []" unfolding acc by blast
    obtain pre2 rest2 gs2 where eq2: "st2 = (pre2, rest2, gs2)" by (cases st2)
    from compile_parts_front[OF ng, of "[]" "[]" "''^''" "[Bol]" False] c
    have body: "body = Bol # front_rx 0 (pattern_parts pattern)" by auto
    from st2 eq2 have "(pre2, rest2, gs2) \<in> set (run_seq (front_rx 0 (pattern_parts pattern)) ([], path @ ''//'', g0))"
      by (simp add: body)
    from front_rx_end[OF this assms(2)] pattern_parts_no_slash
    have e: "pre2 = [] \<or> (pre2 \<noteq> [] \<and> last pre2 \<noteq> CHR ''/'')" by blast
    from run_seq_text[of pre2 rest2 gs2 body "[]" "path @ ''//''" g0] st2 eq2
    have u2: "path @ ''//'' = pre2 @ rest2" by auto
    from tail_accepts[OF t2[unfolded eq2 tail_def]]
    have c2: "rest2 = [] \<or> rest2 = ''/'' \<or> rest2 = [CHR 0x0A] \<or> rest2 = [CHR ''/'', CHR 0x0A]" .
    have l: "last (path @ ''//'') = CHR ''/''" by simp
    from c2 show False
    proof (elim disjE)
      assume "rest2 = []"
      with u2 have "pre2 = path @ ''//''" by simp
      with e show False by simp
    next
      assume r: "rest2 = ''/''"
      with u2 have "pre2 = path @ ''/''" by simp
      with e show False by simp
    next
      assume "rest2 = [CHR 0x0A]"
      with u2 have "last (path @ ''//'') = CHR 0x0A" by (metis last_appendR last_snoc list.distinct(1) append_Nil)
      with l show False by simp
    next
      assume "rest2 = [CHR ''/'', CHR 0x0A]"
      with u2 have "last (path @ ''//'') = CHR 0x0A" by (metis last_appendR last.simps list.distinct(1))
      with l show False by simp
    qed
  qed
  from one two show ?thesis by blast
qed

theorem trailing_slash_tolerated_witness:
  "map_sum id (\<lambda>(p, tokens). (re_match p ''/user/admin'' \<noteq> None, re_match p ''/user/admin/'' \<noteq> None,
                                re_match p ''/user/admin//''))
     (patternToRegex ''/user/:id'') = Inr (True, True, None)"
proof -
  from user_id_accepts_admin obtain p tokens where
    c: "patternToRegex ''/user/:id'' = Inr (p, tokens)" and m: "re_match p ''/user/admin'' \<noteq> None"
    by (cases "patternToRegex ''/user/:id''") auto
  have pl: "list_all plain_part (pattern_parts ''/user/:id'')" by code_simp
  have l: "''/user/admin'' = [] \<or> (last ''/user/admin'' \<noteq> CHR ''/'' \<and> last ''/user/admin'' \<noteq> CHR 0x0A)"
    by simp
  have ng: "filter is_greedy (pattern_parts ''/user/:id'') = []" by code_simp
  from trailing_slash_tolerated[OF c pl m l] ng
  have "re_match p ''/user/admin/'' \<noteq> None" "re_match p ''/user/admin//'' = None" by simp_all
  with c m show ?thesis by simp
qed

end
